theory Spec2Isabelle
  imports Main "HOL-Library.Word"
begin

unbundle bit_operations_syntax

section \<open>The solver's expression language\<close>

text \<open>
  The program builds z3 expressions of three sorts: \<open>Int\<close> (the selectors of a slot),
  \<open>BitVec[32]\<close> (registers and immediates) and \<open>Bool\<close> (assertions and conditions).
  Only the operators that \<^verbatim>\<open>sematrope.cc\<close> applies are represented. An expression is a
  tree; its meaning under an assignment of the constants is the SMT-LIB one.
\<close>

type_synonym uint64 = "64 word"
type_synonym bv32 = "32 word"

datatype iexpr =
    IntConst string
  | IntVal int

datatype bvexpr =
    BvConst string
  | BvVal bv32
  | BvSub bvexpr bvexpr
  | BvAnd bvexpr bvexpr
  | Ite bexpr bvexpr bvexpr
and bexpr =
    IntEq iexpr iexpr
  | BvEq bvexpr bvexpr
  | BvNeq bvexpr bvexpr
  | BvUlt bvexpr bvexpr
  | BOr bexpr bexpr

record env =
  int_of :: "string \<Rightarrow> int"
  bv_of :: "string \<Rightarrow> bv32"

primrec int_sem :: "env \<Rightarrow> iexpr \<Rightarrow> int" where
  "int_sem \<rho> (IntConst n) = int_of \<rho> n"
| "int_sem \<rho> (IntVal v) = v"

primrec bv_sem :: "env \<Rightarrow> bvexpr \<Rightarrow> bv32"
  and b_sem :: "env \<Rightarrow> bexpr \<Rightarrow> bool" where
  "bv_sem \<rho> (BvConst n) = bv_of \<rho> n"
| "bv_sem \<rho> (BvVal v) = v"
| "bv_sem \<rho> (BvSub a b) = bv_sem \<rho> a - bv_sem \<rho> b"
| "bv_sem \<rho> (BvAnd a b) = bv_sem \<rho> a AND bv_sem \<rho> b"
| "bv_sem \<rho> (Ite c a b) = (if b_sem \<rho> c then bv_sem \<rho> a else bv_sem \<rho> b)"
| "b_sem \<rho> (IntEq a b) = (int_sem \<rho> a = int_sem \<rho> b)"
| "b_sem \<rho> (BvEq a b) = (bv_sem \<rho> a = bv_sem \<rho> b)"
| "b_sem \<rho> (BvNeq a b) = (bv_sem \<rho> a \<noteq> bv_sem \<rho> b)"
| "b_sem \<rho> (BvUlt a b) = (bv_sem \<rho> a < bv_sem \<rho> b)"
| "b_sem \<rho> (BOr a b) = (b_sem \<rho> a \<or> b_sem \<rho> b)"

section \<open>Instruction set and symbolic slots\<close>

definition REGISTER_WIDTH :: nat where
  "REGISTER_WIDTH = 32"

text \<open>
  \<^verbatim>\<open>enum class Opcode { SUB, AND, CMPEQ, LAST = CMPEQ }\<close>, by its integer codes.
  \<open>AND\<close> is the bitwise operator of HOL, so the opcode is written \<open>AND_op\<close>.
\<close>

definition SUB :: int where "SUB = 0"
definition AND_op :: int where "AND_op = 1"
definition CMPEQ :: int where "CMPEQ = 2"
definition LAST :: int where "LAST = CMPEQ"

text \<open>The z3 variables that define an instruction, named from a prefix.\<close>

record SymbolicInsn =
  sym_opcode :: iexpr
  sym_r1 :: iexpr
  sym_r2 :: iexpr
  sym_imm :: bvexpr

definition mkSymbolicInsn :: "string \<Rightarrow> SymbolicInsn" where
  "mkSymbolicInsn prefix =
     \<lparr> sym_opcode = IntConst (prefix @ ''_op''),
       sym_r1 = IntConst (prefix @ ''_r1''),
       sym_r2 = IntConst (prefix @ ''_r2''),
       sym_imm = BvConst (prefix @ ''_imm'') \<rparr>"

text \<open>\<^verbatim>\<open>bvConst\<close> builds a 32-bit numeral from a \<^verbatim>\<open>uint64\<close>, keeping the low 32 bits.\<close>

definition bvConst :: "uint64 \<Rightarrow> bvexpr" where
  "bvConst x = BvVal (ucast x)"

definition boolToBv :: "bexpr \<Rightarrow> bvexpr" where
  "boolToBv b = Ite b (bvConst 1) (bvConst 0)"

section \<open>The symbolic evaluator\<close>

text \<open>
  One pass of the loop body of \<^verbatim>\<open>eval\<close> for slot \<open>i\<close>. The two inner loops run \<open>j\<close>
  downwards, wrapping the expression built so far in a further if-then-else.
\<close>

definition select_in1 :: "SymbolicInsn \<Rightarrow> bvexpr list \<Rightarrow> nat \<Rightarrow> bvexpr" where
  "select_in1 insn regs i =
     fold (\<lambda>j in1. Ite (IntEq (sym_r1 insn) (IntVal (int j))) (regs ! j) in1)
          (rev [0..<i]) (regs ! i)"

definition select_in2 :: "SymbolicInsn \<Rightarrow> bvexpr list \<Rightarrow> nat \<Rightarrow> bvexpr" where
  "select_in2 insn regs i =
     fold (\<lambda>j in2. Ite (IntEq (sym_r2 insn) (IntVal (int j))) (regs ! j) in2)
          (rev [0..<Suc i]) (sym_imm insn)"

definition insn_result :: "SymbolicInsn \<Rightarrow> bvexpr \<Rightarrow> bvexpr \<Rightarrow> bvexpr" where
  "insn_result insn in1 in2 =
     Ite (IntEq (sym_opcode insn) (IntVal CMPEQ)) (boolToBv (BvEq in1 in2))
       (Ite (IntEq (sym_opcode insn) (IntVal AND_op)) (BvAnd in1 in2)
         (BvSub in1 in2))"

definition eval_step :: "SymbolicInsn list \<Rightarrow> nat \<Rightarrow> bvexpr list \<Rightarrow> bvexpr list" where
  "eval_step insns i regs =
     regs @ [insn_result (insns ! i) (select_in1 (insns ! i) regs i)
                                     (select_in2 (insns ! i) regs i)]"

definition eval_regs :: "bvexpr \<Rightarrow> SymbolicInsn list \<Rightarrow> bvexpr list" where
  "eval_regs x insns = fold (eval_step insns) [0..<length insns] [x]"

definition eval :: "bvexpr \<Rightarrow> SymbolicInsn list \<Rightarrow> bvexpr" where
  "eval x insns = eval_regs x insns ! length insns"


section \<open>Printing\<close>

text \<open>\<^verbatim>\<open>std::to_string\<close> on an \<^verbatim>\<open>int\<close>: decimal, no leading zeros, a minus sign if negative.\<close>

fun decimal :: "nat \<Rightarrow> string" where
  "decimal n = (if n < 10 then [''0123456789'' ! n]
                else decimal (n div 10) @ [''0123456789'' ! (n mod 10)])"

definition to_string :: "int \<Rightarrow> string" where
  "to_string i = (if i < 0 then CHR ''-'' # decimal (nat (- i)) else decimal (nat i))"

text \<open>\<^verbatim>\<open>hex\<close>: the value as \<^verbatim>\<open>uint64_t\<close> through \<^verbatim>\<open>std::hex\<close>, lower case, no prefix.\<close>

fun hexadecimal :: "nat \<Rightarrow> string" where
  "hexadecimal n = (if n < 16 then [''0123456789abcdef'' ! n]
                    else hexadecimal (n div 16) @ [''0123456789abcdef'' ! (n mod 16)])"

definition hex :: "uint64 \<Rightarrow> string" where
  "hex x = hexadecimal (unat x)"

text \<open>Both functions recurse on their own argument: their equations are unfolded on demand.\<close>

declare decimal.simps [simp del] hexadecimal.simps [simp del]

section \<open>Concrete instructions\<close>

text \<open>
  \<^verbatim>\<open>struct Insn\<close>. The opcode field holds the enumeration's integer code: C++ lets
  \<^verbatim>\<open>Opcode(n)\<close> carry any \<^verbatim>\<open>int\<close>, which is why \<^verbatim>\<open>toString\<close> has a default branch.
\<close>

record Insn =
  opcode :: int
  r1 :: int
  r2 :: int
  isImm :: bool
  imm :: uint64

datatype abort = SIGABRT

definition mnemonic :: "int \<Rightarrow> abort + string" where
  "mnemonic opc =
     (if opc = SUB then Inr ''sub''
      else if opc = AND_op then Inr ''and''
      else if opc = CMPEQ then Inr ''cmpeq''
      else Inl SIGABRT)"

definition toString :: "Insn \<Rightarrow> int \<Rightarrow> abort + string" where
  "toString insn dest =
     (case mnemonic (opcode insn) of
        Inl a \<Rightarrow> Inl a
      | Inr s \<Rightarrow>
          Inr (s @ '' r'' @ to_string (r1 insn) @ '', ''
                 @ (if isImm insn then ''0x'' @ hex (imm insn)
                    else ''r'' @ to_string (r2 insn))
                 @ '', r'' @ to_string dest))"

section \<open>The symbolic program builder\<close>

definition makeInsns :: "int \<Rightarrow> SymbolicInsn list \<times> bexpr list" where
  "makeInsns numInsns =
     fold (\<lambda>i (insns, constraints).
             let insns' = insns @ [mkSymbolicInsn (''op'' @ to_string (int i))]
             in (insns', constraints @ [BvUlt (sym_imm (last insns')) (bvConst 0xff)]))
          [0..<nat numInsns] ([], [])"

section \<open>Models and the decoder\<close>

text \<open>
  A model interprets some of the constants. \<^verbatim>\<open>model.eval(e)\<close> is called without model
  completion: constants the model interprets are replaced by their values, the others
  stay. The result \<^verbatim>\<open>is_numeral()\<close> exactly if it is a value.
\<close>

record model =
  m_int :: "string \<rightharpoonup> int"
  m_bv :: "string \<rightharpoonup> bv32"

primrec model_eval_int :: "model \<Rightarrow> iexpr \<Rightarrow> iexpr" where
  "model_eval_int m (IntConst n) = (case m_int m n of Some v \<Rightarrow> IntVal v | None \<Rightarrow> IntConst n)"
| "model_eval_int m (IntVal v) = IntVal v"

primrec model_eval :: "model \<Rightarrow> bvexpr \<Rightarrow> bvexpr"
  and model_eval_bool :: "model \<Rightarrow> bexpr \<Rightarrow> bexpr" where
  "model_eval m (BvConst n) = (case m_bv m n of Some v \<Rightarrow> BvVal v | None \<Rightarrow> BvConst n)"
| "model_eval m (BvVal v) = BvVal v"
| "model_eval m (BvSub a b) = BvSub (model_eval m a) (model_eval m b)"
| "model_eval m (BvAnd a b) = BvAnd (model_eval m a) (model_eval m b)"
| "model_eval m (Ite c a b) = Ite (model_eval_bool m c) (model_eval m a) (model_eval m b)"
| "model_eval_bool m (IntEq a b) = IntEq (model_eval_int m a) (model_eval_int m b)"
| "model_eval_bool m (BvEq a b) = BvEq (model_eval m a) (model_eval m b)"
| "model_eval_bool m (BvNeq a b) = BvNeq (model_eval m a) (model_eval m b)"
| "model_eval_bool m (BvUlt a b) = BvUlt (model_eval m a) (model_eval m b)"
| "model_eval_bool m (BOr a b) = BOr (model_eval_bool m a) (model_eval_bool m b)"

text \<open>
  \<^verbatim>\<open>get_numeral_int\<close> hands an \<open>Int\<close> numeral back as a C++ \<^verbatim>\<open>int\<close> (32 bits). A numeral
  outside that range cannot be handed back: z3 raises \<^verbatim>\<open>z3::exception\<close>. The other
  exception of a run is the one that \<^verbatim>\<open>main\<close> throws itself.
\<close>

datatype z3_exception = unexpected_check_value | numeral_does_not_fit

definition INT_MIN :: int where "INT_MIN = - (2 ^ 31)"
definition INT_MAX :: int where "INT_MAX = 2 ^ 31 - 1"

definition fits_int :: "int \<Rightarrow> bool" where
  "fits_int v \<longleftrightarrow> INT_MIN \<le> v \<and> v \<le> INT_MAX"

definition get_numeral_int :: "int \<Rightarrow> z3_exception + int" where
  "get_numeral_int v = (if fits_int v then Inr v else Inl numeral_does_not_fit)"

definition getIntDefault :: "iexpr \<Rightarrow> int \<Rightarrow> z3_exception + int" where
  "getIntDefault e d = (case e of IntVal v \<Rightarrow> get_numeral_int v | IntConst n \<Rightarrow> Inr d)"

text \<open>A 32-bit numeral always fits \<^verbatim>\<open>uint64\<close>.\<close>

definition getUint64Default :: "bvexpr \<Rightarrow> uint64 \<Rightarrow> uint64" where
  "getUint64Default e d = (case e of BvVal v \<Rightarrow> ucast v | _ \<Rightarrow> d)"

text \<open>
  The body of the loop of \<^verbatim>\<open>reconstructProgram\<close> for slot \<open>i\<close>: the three selectors are
  read in the order opcode, r1, r2, and the first exception leaves the function.
\<close>

definition reconstructInsn :: "model \<Rightarrow> int \<Rightarrow> SymbolicInsn \<Rightarrow> z3_exception + Insn" where
  "reconstructInsn m i s =
     (case getIntDefault (model_eval_int m (sym_opcode s)) 0 of
        Inl e \<Rightarrow> Inl e
      | Inr opc \<Rightarrow>
     (case getIntDefault (model_eval_int m (sym_r1 s)) 0 of
        Inl e \<Rightarrow> Inl e
      | Inr a \<Rightarrow>
     (case getIntDefault (model_eval_int m (sym_r2 s)) 0 of
        Inl e \<Rightarrow> Inl e
      | Inr b \<Rightarrow>
          (let opc' = (if opc < 0 \<or> opc > LAST then 0 else opc);
               a' = (if a < 0 \<or> a > i then i else a)
           in if b < 0 \<or> b > i
              then Inr \<lparr> opcode = opc', r1 = a', r2 = 0, isImm = True,
                         imm = getUint64Default (model_eval m (sym_imm s)) 0 \<rparr>
              else Inr \<lparr> opcode = opc', r1 = a', r2 = b, isImm = False, imm = 0 \<rparr>))))"

definition reconstructProgram :: "SymbolicInsn list \<Rightarrow> model \<Rightarrow> z3_exception + Insn list" where
  "reconstructProgram insns m =
     fold (\<lambda>i result.
             case result of
               Inl e \<Rightarrow> Inl e
             | Inr program \<Rightarrow>
                 (case reconstructInsn m (int i) (insns ! i) of
                    Inl e \<Rightarrow> Inl e
                  | Inr insn \<Rightarrow> Inr (program @ [insn])))
          [0..<length insns] (Inr [])"

section \<open>The target specification\<close>

definition isPowerOfTwoOrZero :: "bvexpr \<Rightarrow> bvexpr" where
  "isPowerOfTwoOrZero x =
     boolToBv (fst (fold (\<lambda>i (r, p). (BOr r (BvEq x (bvConst p)), push_bit 1 p))
                         [0..<REGISTER_WIDTH] (BvEq x (BvVal 0), 1 :: uint64)))"

text \<open>The specification's other wording of the target: at most one bit is set.\<close>

definition popcount :: "bv32 \<Rightarrow> nat" where
  "popcount x = length (filter (bit x) [0..<32])"

section \<open>Concrete instruction semantics\<close>

text \<open>
  Modelled from the spec: the concrete evaluator of the instruction set (\<open>eval_op\<close> of the
  instruction set model, and running a concrete program) is not in \<^verbatim>\<open>sematrope.cc\<close>,
  which only evaluates programs symbolically. \<open>SUB(a,b) = a - b\<close> wrapping,
  \<open>AND(a,b)\<close> bitwise, \<open>CMPEQ(a,b) = 1\<close> if \<open>a = b\<close> else \<open>0\<close>; \<open>SUB\<close> is the default for
  an opcode outside the enumeration.
\<close>

definition eval_op :: "int \<Rightarrow> bv32 \<Rightarrow> bv32 \<Rightarrow> bv32" where
  "eval_op opc a b =
     (if opc = AND_op then a AND b
      else if opc = CMPEQ then (if a = b then 1 else 0)
      else a - b)"

text \<open>
  Modelled from the spec: instruction \<open>i\<close> of a program reads its first operand from
  register \<open>r1 \<in> [0..i]\<close>, its second from register \<open>r2 \<in> [0..i]\<close> or from the immediate,
  and defines register \<open>i + 1\<close>; register 0 is the input and the last register is the
  output. A register index outside \<open>[0..i]\<close> has no meaning: the run has no result.
\<close>

fun run_insns :: "Insn list \<Rightarrow> bv32 list \<Rightarrow> bv32 list option" where
  "run_insns [] regs = Some regs"
| "run_insns (insn # rest) regs =
     (if 0 \<le> r1 insn \<and> r1 insn < int (length regs) \<and>
         (isImm insn \<or> (0 \<le> r2 insn \<and> r2 insn < int (length regs)))
      then run_insns rest
             (regs @ [eval_op (opcode insn) (regs ! nat (r1 insn))
                        (if isImm insn then ucast (imm insn) else regs ! nat (r2 insn))])
      else None)"

definition Evaluator_concrete :: "bv32 \<Rightarrow> Insn list \<Rightarrow> bv32 option" where
  "Evaluator_concrete x program = map_option last (run_insns program [x])"


section \<open>The synthesis loop of \<^verbatim>\<open>main\<close>\<close>

text \<open>
  The solver is outside the program: \<^verbatim>\<open>check()\<close> is a parameter, a function from the
  asserted formulas to an answer. Every iteration works in a fresh context, so an answer
  depends on the assertions only.
\<close>

datatype check_result = sat model | unsat | unknown

type_synonym solver = "bexpr list \<Rightarrow> check_result"

definition targetProgram :: "bvexpr \<Rightarrow> bvexpr" where
  "targetProgram = isPowerOfTwoOrZero"

definition zero_env :: env where
  "zero_env = \<lparr> int_of = (\<lambda>n. 0), bv_of = (\<lambda>n. 0) \<rparr>"

text \<open>
  \<^verbatim>\<open>targetProgram(bvConst(t, c), c).simplify().get_numeral_uint64()\<close>: the expression has
  no constants, so simplification yields its value.
\<close>

definition correctResult :: "uint64 \<Rightarrow> uint64" where
  "correctResult t = ucast (bv_sem zero_env (targetProgram (bvConst t)))"

definition synthesis_query :: "int \<Rightarrow> uint64 list \<Rightarrow> bexpr list" where
  "synthesis_query numInsns testCases =
     (let (insns, constraints) = makeInsns numInsns
      in constraints @
         map (\<lambda>t. BvEq (eval (bvConst t) insns) (bvConst (correctResult t))) testCases)"

definition x_var :: bvexpr where
  "x_var = BvConst ''x''"

definition solutionProgram :: "int \<Rightarrow> model \<Rightarrow> bvexpr" where
  "solutionProgram numInsns m = model_eval m (eval x_var (fst (makeInsns numInsns)))"

definition verification_query :: "int \<Rightarrow> model \<Rightarrow> bexpr list" where
  "verification_query numInsns m = [BvNeq (solutionProgram numInsns m) (targetProgram x_var)]"

text \<open>\<^verbatim>\<open>program[i].toString(i + 1)\<close> for every \<open>i\<close>; the first \<^verbatim>\<open>abort()\<close> ends the run.\<close>

fun print_program :: "Insn list \<Rightarrow> int \<Rightarrow> abort + string list" where
  "print_program [] dest = Inr []"
| "print_program (insn # rest) dest =
     (case toString insn dest of
        Inl a \<Rightarrow> Inl a
      | Inr l \<Rightarrow> (case print_program rest (dest + 1) of
                   Inl a \<Rightarrow> Inl a
                 | Inr ls \<Rightarrow> Inr (l # ls)))"

text \<open>
  How a run of \<^verbatim>\<open>main\<close> ends. Both \<^verbatim>\<open>return 0\<close> statements are reached with exit code 0:
  after the program is written to standard output, and after the handler has written the
  message of a \<^verbatim>\<open>z3::exception\<close> to standard error. The candidate program of an
  iteration is written to standard error (after \<^verbatim>\<open>Found program:\<close>) before the
  verification check, so a result carries the candidate lines that its last iteration
  wrote there. \<open>NotNumeral\<close> stands for \<^verbatim>\<open>get_numeral_uint64\<close> applied to an expression
  that is not a numeral. The progress messages on standard error are left out.
\<close>

datatype main_result =
    Printed "Insn list" "string list"
  | Caught "string list" z3_exception
  | Aborted
  | NotNumeral "string list"

fun exit_code :: "main_result \<Rightarrow> int option" where
  "exit_code (Printed program ls) = Some 0"
| "exit_code (Caught ls e) = Some 0"
| "exit_code Aborted = None"
| "exit_code (NotNumeral ls) = None"

fun stdout :: "main_result \<Rightarrow> string list" where
  "stdout (Printed program ls) = ls"
| "stdout (Caught ls e) = []"
| "stdout Aborted = []"
| "stdout (NotNumeral ls) = []"

text \<open>
  Standard error: the candidate lines of the last iteration, and the message that the
  handler prints. The message of \<^verbatim>\<open>main\<close>'s own exception is in the source; the text of
  z3's is not.
\<close>

fun stderr_candidate :: "main_result \<Rightarrow> string list" where
  "stderr_candidate (Printed program ls) = ls"
| "stderr_candidate (Caught ls e) = ls"
| "stderr_candidate Aborted = []"
| "stderr_candidate (NotNumeral ls) = ls"

fun msg :: "z3_exception \<Rightarrow> string option" where
  "msg unexpected_check_value = Some ''unexpected check value''"
| "msg numeral_does_not_fit = None"

fun stderr_message :: "main_result \<Rightarrow> string option" where
  "stderr_message (Caught ls e) = msg e"
| "stderr_message (Printed program ls) = None"
| "stderr_message Aborted = None"
| "stderr_message (NotNumeral ls) = None"

text \<open>
  One pass through the body of \<^verbatim>\<open>while (true)\<close>. The diagnostic line about the
  counterexample found is left out; it calls \<^verbatim>\<open>get_numeral_uint64\<close> once more and could
  only end a run that the model lets loop back.
\<close>

datatype outcome =
    Continue "uint64 list"
  | Break
  | Done main_result

definition iteration :: "solver \<Rightarrow> int \<Rightarrow> uint64 list \<Rightarrow> outcome" where
  "iteration check numInsns testCases =
     (case check (synthesis_query numInsns testCases) of
        unknown \<Rightarrow> Done (Caught [] unexpected_check_value)
      | unsat \<Rightarrow> Break
      | sat m \<Rightarrow>
          (case reconstructProgram (fst (makeInsns numInsns)) m of
             Inl e \<Rightarrow> Done (Caught [] e)
           | Inr program \<Rightarrow>
               (case print_program program 1 of
                  Inl a \<Rightarrow> Done Aborted
                | Inr ls \<Rightarrow>
                    (case check (verification_query numInsns m) of
                       unknown \<Rightarrow> Done (Caught ls unexpected_check_value)
                     | unsat \<Rightarrow> Done (Printed program ls)
                     | sat cemodel \<Rightarrow>
                         (case model_eval cemodel x_var of
                            BvVal t \<Rightarrow> Continue (testCases @ [ucast t])
                          | _ \<Rightarrow> Done (NotNumeral ls))))))"

text \<open>
  The two nested loops of \<^verbatim>\<open>main\<close> as one: \<open>Break\<close> leaves the inner loop and the outer
  one increments \<^verbatim>\<open>numInsns\<close>. The loops have no bound, so the model counts iterations:
  \<open>None\<close> means that the run has not ended within \<open>fuel\<close> iterations.
\<close>

fun main_loop :: "solver \<Rightarrow> nat \<Rightarrow> int \<Rightarrow> uint64 list \<Rightarrow> main_result option" where
  "main_loop check 0 numInsns testCases = None"
| "main_loop check (Suc fuel) numInsns testCases =
     (case iteration check numInsns testCases of
        Continue testCases' \<Rightarrow> main_loop check fuel numInsns testCases'
      | Break \<Rightarrow> main_loop check fuel (numInsns + 1) testCases
      | Done res \<Rightarrow> Some res)"

definition main :: "solver \<Rightarrow> nat \<Rightarrow> main_result option" where
  "main check fuel = main_loop check fuel 1 []"


text \<open>
  What it means for the solver's answers to be right. A model may leave constants out;
  those are free, and the asserted formulas hold however they are chosen.
\<close>

definition complete :: "model \<Rightarrow> env \<Rightarrow> env" where
  "complete m \<rho> =
     \<lparr> int_of = (\<lambda>n. case m_int m n of Some v \<Rightarrow> v | None \<Rightarrow> int_of \<rho> n),
       bv_of = (\<lambda>n. case m_bv m n of Some v \<Rightarrow> v | None \<Rightarrow> bv_of \<rho> n) \<rparr>"

definition unsat_correct :: "solver \<Rightarrow> bexpr list \<Rightarrow> bool" where
  "unsat_correct check q =
     (check q = unsat \<longrightarrow> (\<forall>\<rho>. \<exists>a \<in> set q. \<not> b_sem \<rho> a))"



section \<open>Reading a model as the decoder does\<close>

text \<open>
  What \<^verbatim>\<open>getIntDefault\<close> reads for a selector when nothing is raised: the numeral of the
  model, or 0 if the model leaves the constant open. A selector is readable if its
  numeral fits an \<^verbatim>\<open>int\<close>. \<open>decodeInsn\<close> is the instruction that \<^verbatim>\<open>reconstructProgram\<close>
  builds for a slot whose selectors are readable.
\<close>

definition read_int :: "model \<Rightarrow> iexpr \<Rightarrow> int" where
  "read_int m e = (case model_eval_int m e of IntVal v \<Rightarrow> v | IntConst n \<Rightarrow> 0)"

definition readable :: "model \<Rightarrow> iexpr \<Rightarrow> bool" where
  "readable m e = (case model_eval_int m e of IntVal v \<Rightarrow> fits_int v | IntConst n \<Rightarrow> True)"

definition slot_readable :: "model \<Rightarrow> SymbolicInsn \<Rightarrow> bool" where
  "slot_readable m s \<longleftrightarrow>
     readable m (sym_opcode s) \<and> readable m (sym_r1 s) \<and> readable m (sym_r2 s)"

definition decodeInsn :: "model \<Rightarrow> int \<Rightarrow> SymbolicInsn \<Rightarrow> Insn" where
  "decodeInsn m i s =
     (let opc = read_int m (sym_opcode s);
          opc' = (if opc < 0 \<or> opc > LAST then 0 else opc);
          a = read_int m (sym_r1 s);
          a' = (if a < 0 \<or> a > i then i else a);
          b = read_int m (sym_r2 s)
      in if b < 0 \<or> b > i
         then \<lparr> opcode = opc', r1 = a', r2 = 0, isImm = True,
                imm = getUint64Default (model_eval m (sym_imm s)) 0 \<rparr>
         else \<lparr> opcode = opc', r1 = a', r2 = b, isImm = False, imm = 0 \<rparr>)"

definition decodeProgram :: "SymbolicInsn list \<Rightarrow> model \<Rightarrow> Insn list" where
  "decodeProgram insns m = map (\<lambda>i. decodeInsn m (int i) (insns ! i)) [0..<length insns]"

text \<open>
  An assignment \<open>\<rho>\<close> gives a slot the values that \<^verbatim>\<open>reconstructProgram\<close> reads for it
  from the model \<open>m\<close> (with 0 for whatever the model leaves open).
\<close>

definition decoder_view :: "model \<Rightarrow> env \<Rightarrow> SymbolicInsn \<Rightarrow> bool" where
  "decoder_view m \<rho> s \<longleftrightarrow>
     int_sem \<rho> (sym_opcode s) = read_int m (sym_opcode s) \<and>
     int_sem \<rho> (sym_r1 s) = read_int m (sym_r1 s) \<and>
     int_sem \<rho> (sym_r2 s) = read_int m (sym_r2 s) \<and>
     bv_sem \<rho> (sym_imm s) = ucast (getUint64Default (model_eval m (sym_imm s)) 0)"




section \<open>Concrete data for the examples\<close>

text \<open>A model of three slots that decodes to \<open>t = x - 1; u = t \<and> x; r = cmpeq(u, 0)\<close>.\<close>

definition model3 :: model where
  "model3 =
     \<lparr> m_int = [''op0_op'' \<mapsto> 0, ''op0_r1'' \<mapsto> 0, ''op0_r2'' \<mapsto> - 1,
                ''op1_op'' \<mapsto> 1, ''op1_r1'' \<mapsto> 1, ''op1_r2'' \<mapsto> 0,
                ''op2_op'' \<mapsto> 2, ''op2_r1'' \<mapsto> 2, ''op2_r2'' \<mapsto> 7],
       m_bv = [''op0_imm'' \<mapsto> 1, ''op1_imm'' \<mapsto> 0, ''op2_imm'' \<mapsto> 0] \<rparr>"

definition env3 :: env where
  "env3 = complete model3 zero_env"


section \<open>Names of the constants of a slot\<close>

text \<open>The constants that a slot is made of, in the order opcode, r1, r2, immediate.\<close>

primrec int_consts :: "iexpr \<Rightarrow> string list" where
  "int_consts (IntConst n) = [n]"
| "int_consts (IntVal v) = []"

definition slot_consts :: "SymbolicInsn \<Rightarrow> string list" where
  "slot_consts s =
     int_consts (sym_opcode s) @ int_consts (sym_r1 s) @ int_consts (sym_r2 s) @
     (case sym_imm s of BvConst n \<Rightarrow> [n] | _ \<Rightarrow> [])"

text \<open>An assignment that gives every bit-vector constant the value \<open>0xff\<close>.\<close>

definition env_ff :: env where
  "env_ff = \<lparr> int_of = (\<lambda>n. 0), bv_of = (\<lambda>n. 0xff) \<rparr>"

text \<open>The name \<^verbatim>\<open>"op" + std::to_string(i) + "_" + suffix\<close>.\<close>

definition slot_name :: "nat \<Rightarrow> string \<Rightarrow> string" where
  "slot_name i suffix = ''op'' @ to_string (int i) @ CHR ''_'' # suffix"

section \<open>The target as a function on words\<close>

text \<open>The value of the target specification at a concrete input.\<close>

definition spec :: "bv32 \<Rightarrow> bv32" where
  "spec v = bv_sem zero_env (targetProgram (BvVal v))"

section \<open>Models that decide a slot\<close>

text \<open>
  \<^verbatim>\<open>is_numeral()\<close> on the result of \<^verbatim>\<open>model.eval\<close>; a model decides a slot if it
  interprets its four constants.
\<close>

definition is_numeral_int :: "iexpr \<Rightarrow> bool" where
  "is_numeral_int e = (case e of IntVal v \<Rightarrow> True | IntConst n \<Rightarrow> False)"

definition is_numeral_bv :: "bvexpr \<Rightarrow> bool" where
  "is_numeral_bv e = (case e of BvVal v \<Rightarrow> True | _ \<Rightarrow> False)"

definition model_decides :: "model \<Rightarrow> SymbolicInsn \<Rightarrow> bool" where
  "model_decides m s \<longleftrightarrow>
     is_numeral_int (model_eval_int m (sym_opcode s)) \<and>
     is_numeral_int (model_eval_int m (sym_r1 s)) \<and>
     is_numeral_int (model_eval_int m (sym_r2 s)) \<and>
     is_numeral_bv (model_eval m (sym_imm s))"

section \<open>Counterexamples of a candidate\<close>


section \<open>Solvers and models for the examples\<close>

text \<open>
  \<open>input_env v\<close> assigns \<open>v\<close> to the input constant and 0 to everything else. The
  example solvers answer the queries of one run and \<open>unknown\<close> otherwise: \<open>check1\<close> finds
  the one-instruction candidate \<open>r1 = r0 - r0\<close> and the counterexample 1 for it,
  \<open>check1u\<close> gives up on the verification query, \<open>check3\<close> finds the three-instruction
  program and reports that it has no counterexample.
\<close>

definition input_env :: "bv32 \<Rightarrow> env" where
  "input_env v = \<lparr> int_of = (\<lambda>n. 0), bv_of = (\<lambda>n. 0)(''x'' := v) \<rparr>"

definition always_unknown :: solver where
  "always_unknown q = unknown"

definition model1 :: model where
  "model1 = \<lparr> m_int = [''op0_op'' \<mapsto> 0, ''op0_r1'' \<mapsto> 0, ''op0_r2'' \<mapsto> 0],
               m_bv = [''op0_imm'' \<mapsto> 0] \<rparr>"



definition check1u :: solver where
  "check1u q = (if q = synthesis_query 1 [] then sat model1 else unknown)"

definition check3 :: solver where
  "check3 q =
     (if q = synthesis_query 3 [] then sat model3
      else if q = verification_query 3 model3 then unsat
      else unknown)"






section \<open>Operand selection and opcode dispatch\<close>

lemma cascade_sem:
  "bv_sem \<rho> (fold (\<lambda>j e. Ite (IntEq r (IntVal (int j))) (regs ! j) e) (rev [0..<n]) d) =
     (if 0 \<le> int_sem \<rho> r \<and> int_sem \<rho> r < int n
      then bv_sem \<rho> (regs ! nat (int_sem \<rho> r)) else bv_sem \<rho> d)"
proof (induction n arbitrary: d)
  case 0
  show ?case by auto
next
  case (Suc n)
  have "int_sem \<rho> r = int n \<Longrightarrow> nat (int_sem \<rho> r) = n" by simp
  with Suc show ?case by auto
qed

lemma select_in1_sem:
  "bv_sem \<rho> (select_in1 insn regs i) =
     (if 0 \<le> int_sem \<rho> (sym_r1 insn) \<and> int_sem \<rho> (sym_r1 insn) \<le> int i
      then bv_sem \<rho> (regs ! nat (int_sem \<rho> (sym_r1 insn)))
      else bv_sem \<rho> (regs ! i))"
proof -
  have "int_sem \<rho> (sym_r1 insn) = int i \<Longrightarrow> nat (int_sem \<rho> (sym_r1 insn)) = i" by simp
  then show ?thesis
    unfolding select_in1_def cascade_sem by auto
qed

lemma select_in2_sem:
  "bv_sem \<rho> (select_in2 insn regs i) =
     (if 0 \<le> int_sem \<rho> (sym_r2 insn) \<and> int_sem \<rho> (sym_r2 insn) \<le> int i
      then bv_sem \<rho> (regs ! nat (int_sem \<rho> (sym_r2 insn)))
      else bv_sem \<rho> (sym_imm insn))"
  unfolding select_in2_def cascade_sem by auto

lemma insn_result_sem:
  "bv_sem \<rho> (insn_result insn in1 in2) =
     (if int_sem \<rho> (sym_opcode insn) = CMPEQ
      then (if bv_sem \<rho> in1 = bv_sem \<rho> in2 then 1 else 0)
      else if int_sem \<rho> (sym_opcode insn) = AND_op
      then bv_sem \<rho> in1 AND bv_sem \<rho> in2
      else bv_sem \<rho> in1 - bv_sem \<rho> in2)"
  by (simp add: insn_result_def boolToBv_def bvConst_def)

section \<open>The decoder\<close>

lemma makeInsns_fold:
  "fold (\<lambda>i (insns, constraints).
             let insns' = insns @ [mkSymbolicInsn (''op'' @ to_string (int i))]
             in (insns', constraints @ [BvUlt (sym_imm (last insns')) (bvConst 0xff)]))
        xs (a, b) =
     (a @ map (\<lambda>i. mkSymbolicInsn (''op'' @ to_string (int i))) xs,
      b @ map (\<lambda>i. BvUlt (BvConst (''op'' @ to_string (int i) @ ''_imm'')) (BvVal 0xff)) xs)"
  by (induction xs arbitrary: a b) (auto simp: mkSymbolicInsn_def bvConst_def)

lemma makeInsns_map:
  "makeInsns numInsns =
     (map (\<lambda>i. mkSymbolicInsn (''op'' @ to_string (int i))) [0..<nat numInsns],
      map (\<lambda>i. BvUlt (BvConst (''op'' @ to_string (int i) @ ''_imm'')) (BvVal 0xff))
          [0..<nat numInsns])"
  unfolding makeInsns_def makeInsns_fold by simp

lemma ucast_ucast_32_64: "(ucast (ucast (v :: 32 word) :: 64 word) :: 32 word) = v"
  by (rule bit_word_eqI) (auto simp: bit_simps)

lemma run_insns_append:
  "run_insns (xs @ ys) regs = Option.bind (run_insns xs regs) (run_insns ys)"
  by (induction xs arbitrary: regs) auto

lemma eval_op_clamped:
  "eval_op (if opc < 0 \<or> opc > LAST then 0 else opc) a b =
     (if opc = CMPEQ then (if a = b then 1 else 0)
      else if opc = AND_op then a AND b else a - b)"
  by (auto simp: eval_op_def LAST_def CMPEQ_def AND_op_def)



lemma decodeInsn_opcode:
  "opcode (decodeInsn m i s) =
     (if read_int m (sym_opcode s) < 0 \<or>
         read_int m (sym_opcode s) > LAST
      then 0 else read_int m (sym_opcode s))"
  by (simp add: decodeInsn_def Let_def)

lemma decodeInsn_r1:
  "r1 (decodeInsn m i s) =
     (if read_int m (sym_r1 s) < 0 \<or>
         read_int m (sym_r1 s) > i
      then i else read_int m (sym_r1 s))"
  by (simp add: decodeInsn_def Let_def)

lemma decodeInsn_isImm:
  "isImm (decodeInsn m i s) \<longleftrightarrow>
     read_int m (sym_r2 s) < 0 \<or>
     read_int m (sym_r2 s) > i"
  by (simp add: decodeInsn_def Let_def)

lemma decodeInsn_r2:
  "r2 (decodeInsn m i s) =
     (if isImm (decodeInsn m i s) then 0
      else read_int m (sym_r2 s))"
  by (simp add: decodeInsn_def Let_def)

lemma decodeInsn_imm:
  "imm (decodeInsn m i s) =
     (if isImm (decodeInsn m i s)
      then getUint64Default (model_eval m (sym_imm s)) 0 else 0)"
  by (simp add: decodeInsn_def Let_def)

lemma run_one_agrees:
  assumes len: "length regs = Suc i" and view: "decoder_view m \<rho> s"
  shows "run_insns [decodeInsn m (int i) s] (map (bv_sem \<rho>) regs) =
           Some (map (bv_sem \<rho>) (regs @ [insn_result s (select_in1 s regs i) (select_in2 s regs i)]))"
proof -
  define I where "I = decodeInsn m (int i) s"
  define vs where "vs = map (bv_sem \<rho>) regs"
  have lvs: "length vs = Suc i" by (simp add: vs_def len)
  have opc: "eval_op (opcode I) a b =
      (if int_sem \<rho> (sym_opcode s) = CMPEQ then (if a = b then 1 else 0)
       else if int_sem \<rho> (sym_opcode s) = AND_op then a AND b else a - b)" for a b
    using view unfolding I_def decodeInsn_opcode decoder_view_def
    by (simp only: eval_op_clamped)
  have r1_range: "0 \<le> r1 I \<and> r1 I < int (length vs)"
    unfolding I_def decodeInsn_r1 lvs by auto
  have r2_range: "isImm I \<or> (0 \<le> r2 I \<and> r2 I < int (length vs))"
    unfolding I_def decodeInsn_r2 decodeInsn_isImm lvs by auto
  have in1: "bv_sem \<rho> (select_in1 s regs i) = vs ! nat (r1 I)"
  proof -
    have "nat (int i) < length regs" using len by simp
    moreover have "0 \<le> v \<Longrightarrow> v \<le> int i \<Longrightarrow> nat v < length regs" for v using len by auto
    ultimately show ?thesis
      using view unfolding I_def decodeInsn_r1 decoder_view_def select_in1_sem vs_def
      by auto
  qed
  have in2: "bv_sem \<rho> (select_in2 s regs i) =
      (if isImm I then ucast (imm I) else vs ! nat (r2 I))"
  proof -
    have "0 \<le> v \<Longrightarrow> v \<le> int i \<Longrightarrow> nat v < length regs" for v using len by auto
    then show ?thesis
      using view
      unfolding I_def decodeInsn_r2 decodeInsn_imm decodeInsn_isImm
        decoder_view_def select_in2_sem vs_def
      by auto
  qed
  have "run_insns [I] vs = Some (vs @ [eval_op (opcode I) (vs ! nat (r1 I))
      (if isImm I then ucast (imm I) else vs ! nat (r2 I))])"
    using r1_range r2_range by simp
  also have "\<dots> = Some (vs @ [bv_sem \<rho> (insn_result s (select_in1 s regs i) (select_in2 s regs i))])"
    unfolding insn_result_sem opc in1 in2 by simp
  finally show ?thesis by (simp add: I_def vs_def)
qed

lemma eval_regs_agree:
  assumes view: "\<forall>s \<in> set insns. decoder_view m \<rho> s" and n: "n \<le> length insns"
  shows "length (fold (eval_step insns) [0..<n] [x]) = Suc n \<and>
         run_insns (map (\<lambda>i. decodeInsn m (int i) (insns ! i)) [0..<n]) [bv_sem \<rho> x] =
           Some (map (bv_sem \<rho>) (fold (eval_step insns) [0..<n] [x]))"
  using n
proof (induction n)
  case 0
  show ?case by simp
next
  case (Suc n)
  define R where "R = fold (eval_step insns) [0..<n] [x]"
  from Suc have len: "length R = Suc n"
    and run: "run_insns (map (\<lambda>i. decodeInsn m (int i) (insns ! i)) [0..<n]) [bv_sem \<rho> x] =
           Some (map (bv_sem \<rho>) R)"
    by (simp_all add: R_def)
  from Suc.prems have "decoder_view m \<rho> (insns ! n)" using view by simp
  note one = run_one_agrees [OF len this]
  have next_regs: "fold (eval_step insns) [0..<Suc n] [x] =
      R @ [insn_result (insns ! n) (select_in1 (insns ! n) R n) (select_in2 (insns ! n) R n)]"
    unfolding R_def by (simp add: eval_step_def [of insns n])
  show ?case
    unfolding next_regs using len run one
    by (simp add: run_insns_append)
qed

lemma Evaluator_concrete_agrees:
  assumes "\<forall>s \<in> set insns. decoder_view m \<rho> s"
  shows "Evaluator_concrete (bv_sem \<rho> x) (decodeProgram insns m) =
           Some (bv_sem \<rho> (eval x insns))"
proof -
  from eval_regs_agree [OF assms order_refl, of x]
  have len: "length (eval_regs x insns) = Suc (length insns)"
    and run: "run_insns (decodeProgram insns m) [bv_sem \<rho> x] =
           Some (map (bv_sem \<rho>) (eval_regs x insns))"
    by (simp_all add: eval_regs_def decodeProgram_def)
  from len have "eval_regs x insns \<noteq> []" by auto
  then have "last (map (bv_sem \<rho>) (eval_regs x insns)) = bv_sem \<rho> (eval x insns)"
    using len by (simp add: last_map last_conv_nth eval_def)
  then show ?thesis by (simp add: Evaluator_concrete_def run)
qed

lemma getIntDefault_read:
  "getIntDefault (model_eval_int m e) 0 =
     (if readable m e then Inr (read_int m e) else Inl numeral_does_not_fit)"
  by (cases "model_eval_int m e")
    (simp_all add: getIntDefault_def get_numeral_int_def readable_def read_int_def)

lemma reconstructInsn_decode:
  "reconstructInsn m i s =
     (if slot_readable m s then Inr (decodeInsn m i s) else Inl numeral_does_not_fit)"
  by (simp add: reconstructInsn_def getIntDefault_read slot_readable_def decodeInsn_def Let_def)

lemma reconstruct_fold:
  "fold (\<lambda>i result.
             case result of
               Inl e \<Rightarrow> Inl e
             | Inr program \<Rightarrow>
                 (case reconstructInsn m (int i) (insns ! i) of
                    Inl e \<Rightarrow> Inl e
                  | Inr insn \<Rightarrow> Inr (program @ [insn])))
        [0..<n] (Inr []) =
     (if \<forall>i<n. slot_readable m (insns ! i)
      then Inr (map (\<lambda>i. decodeInsn m (int i) (insns ! i)) [0..<n])
      else Inl numeral_does_not_fit)"
proof -
  define F where "F = (\<lambda>i result.
             case result of
               Inl e \<Rightarrow> Inl e
             | Inr program \<Rightarrow>
                 (case reconstructInsn m (int i) (insns ! i) of
                    Inl e \<Rightarrow> Inl e
                  | Inr insn \<Rightarrow> Inr (program @ [insn])))"
  have "fold F [0..<n] (Inr []) =
     (if \<forall>i<n. slot_readable m (insns ! i)
      then Inr (map (\<lambda>i. decodeInsn m (int i) (insns ! i)) [0..<n])
      else Inl numeral_does_not_fit)"
  proof (induction n)
    case 0
    show ?case by simp
  next
    case (Suc n)
    have step: "fold F [0..<Suc n] (Inr []) = F n (fold F [0..<n] (Inr []))" by simp
    show ?case
    proof (cases "\<forall>i<n. slot_readable m (insns ! i)")
      case True
      then have all: "(\<forall>i<Suc n. slot_readable m (insns ! i)) = slot_readable m (insns ! n)"
        by (auto simp: less_Suc_eq)
      from True Suc have "fold F [0..<n] (Inr []) =
          Inr (map (\<lambda>i. decodeInsn m (int i) (insns ! i)) [0..<n])" by simp
      then show ?thesis
        unfolding step all by (simp add: F_def reconstructInsn_decode)
    next
      case False
      then have none: "\<not> (\<forall>i<Suc n. slot_readable m (insns ! i))"
        using less_Suc_eq by blast
      from False Suc have "fold F [0..<n] (Inr []) = Inl numeral_does_not_fit" by simp
      then show ?thesis
        unfolding step if_not_P [OF none] by (simp add: F_def)
    qed
  qed
  then show ?thesis unfolding F_def .
qed

lemma reconstructProgram_decode:
  "reconstructProgram insns m =
     (if \<forall>s \<in> set insns. slot_readable m s
      then Inr (decodeProgram insns m) else Inl numeral_does_not_fit)"
  unfolding reconstructProgram_def reconstruct_fold decodeProgram_def
  by (simp add: all_set_conv_all_nth)

lemma reconstructProgram_Inr:
  "reconstructProgram insns m = Inr program \<longleftrightarrow>
     (\<forall>s \<in> set insns. slot_readable m s) \<and> program = decodeProgram insns m"
  by (auto simp: reconstructProgram_decode)

section \<open>The register file built by \<^verbatim>\<open>eval\<close>\<close>

lemma eval_fold_Suc:
  "fold (eval_step insns) [0..<Suc n] [x] =
     fold (eval_step insns) [0..<n] [x] @
       [insn_result (insns ! n)
          (select_in1 (insns ! n) (fold (eval_step insns) [0..<n] [x]) n)
          (select_in2 (insns ! n) (fold (eval_step insns) [0..<n] [x]) n)]"
  by (simp add: eval_step_def [of insns n])

lemma length_eval_fold: "length (fold (eval_step insns) [0..<n] [x]) = Suc n"
  by (induction n) (simp_all only: eval_fold_Suc length_append, simp_all)

lemma take_eval_fold:
  "n \<le> k \<Longrightarrow> take (Suc n) (fold (eval_step insns) [0..<k] [x]) = fold (eval_step insns) [0..<n] [x]"
proof (induction k)
  case 0
  then show ?case by simp
next
  case (Suc k)
  show ?case
  proof (cases "n = Suc k")
    case True
    then show ?thesis using length_eval_fold [of insns "Suc k" x] by simp
  next
    case False
    with Suc have "n \<le> k" by simp
    with Suc.IH show ?thesis
      unfolding eval_fold_Suc using length_eval_fold [of insns k x] by simp
  qed
qed

lemma eval_regs_slot:
  assumes "i < length insns"
  shows "eval_regs x insns ! Suc i =
           insn_result (insns ! i)
             (select_in1 (insns ! i) (take (Suc i) (eval_regs x insns)) i)
             (select_in2 (insns ! i) (take (Suc i) (eval_regs x insns)) i)"
proof -
  from assms have le: "Suc i \<le> length insns" by simp
  have "eval_regs x insns ! Suc i = take (Suc (Suc i)) (eval_regs x insns) ! Suc i"
    by simp
  also have "\<dots> = fold (eval_step insns) [0..<Suc i] [x] ! Suc i"
    unfolding eval_regs_def take_eval_fold [OF le] ..
  also have "\<dots> = insn_result (insns ! i)
          (select_in1 (insns ! i) (fold (eval_step insns) [0..<i] [x]) i)
          (select_in2 (insns ! i) (fold (eval_step insns) [0..<i] [x]) i)"
    unfolding eval_fold_Suc using length_eval_fold [of insns i x] by (simp add: nth_append)
  also have "fold (eval_step insns) [0..<i] [x] = take (Suc i) (eval_regs x insns)"
    unfolding eval_regs_def using take_eval_fold [of i "length insns" insns x] assms by simp
  finally show ?thesis .
qed

text \<open>
  C4. Operand selection in the symbolic evaluator: in slot \<open>i\<close> of \<^verbatim>\<open>eval\<close>, whatever
  integers \<open>r1\<close> and \<open>r2\<close> are assigned, the first operand is register \<open>r1\<close> if
  \<open>0 \<le> r1 \<le> i\<close> and the latest register \<open>i\<close> otherwise; the second operand is register
  \<open>r2\<close> if \<open>0 \<le> r2 \<le> i\<close> and the immediate otherwise.
\<close>

theorem operand_selection:
  "i < length insns \<Longrightarrow>
   eval_regs x insns ! Suc i =
     insn_result (insns ! i)
       (select_in1 (insns ! i) (take (Suc i) (eval_regs x insns)) i)
       (select_in2 (insns ! i) (take (Suc i) (eval_regs x insns)) i) \<and>
   bv_sem \<rho> (select_in1 (insns ! i) (take (Suc i) (eval_regs x insns)) i) =
     (if 0 \<le> int_sem \<rho> (sym_r1 (insns ! i)) \<and> int_sem \<rho> (sym_r1 (insns ! i)) \<le> int i
      then bv_sem \<rho> (eval_regs x insns ! nat (int_sem \<rho> (sym_r1 (insns ! i))))
      else bv_sem \<rho> (eval_regs x insns ! i)) \<and>
   bv_sem \<rho> (select_in2 (insns ! i) (take (Suc i) (eval_regs x insns)) i) =
     (if 0 \<le> int_sem \<rho> (sym_r2 (insns ! i)) \<and> int_sem \<rho> (sym_r2 (insns ! i)) \<le> int i
      then bv_sem \<rho> (eval_regs x insns ! nat (int_sem \<rho> (sym_r2 (insns ! i))))
      else bv_sem \<rho> (sym_imm (insns ! i)))"
proof -
  assume i: "i < length insns"
  define regs where "regs = eval_regs x insns"
  define v1 where "v1 = int_sem \<rho> (sym_r1 (insns ! i))"
  define v2 where "v2 = int_sem \<rho> (sym_r2 (insns ! i))"
  have in1: "bv_sem \<rho> (select_in1 (insns ! i) (take (Suc i) regs) i) =
      (if 0 \<le> v1 \<and> v1 \<le> int i then bv_sem \<rho> (regs ! nat v1) else bv_sem \<rho> (regs ! i))"
  proof (cases "0 \<le> v1 \<and> v1 \<le> int i")
    case True
    then have "nat v1 < Suc i" by auto
    then have "take (Suc i) regs ! nat v1 = regs ! nat v1" by simp
    then show ?thesis
      unfolding select_in1_sem v1_def [symmetric] if_P [OF True] by simp
  next
    case False
    show ?thesis
      unfolding select_in1_sem v1_def [symmetric] if_not_P [OF False] by simp
  qed
  have in2: "bv_sem \<rho> (select_in2 (insns ! i) (take (Suc i) regs) i) =
      (if 0 \<le> v2 \<and> v2 \<le> int i then bv_sem \<rho> (regs ! nat v2)
       else bv_sem \<rho> (sym_imm (insns ! i)))"
  proof (cases "0 \<le> v2 \<and> v2 \<le> int i")
    case True
    then have "nat v2 < Suc i" by auto
    then have "take (Suc i) regs ! nat v2 = regs ! nat v2" by simp
    then show ?thesis
      unfolding select_in2_sem v2_def [symmetric] if_P [OF True] by simp
  next
    case False
    show ?thesis
      unfolding select_in2_sem v2_def [symmetric] if_not_P [OF False] by simp
  qed
  from eval_regs_slot [OF i, of x] in1 in2 show ?thesis
    unfolding regs_def v1_def v2_def by blast
qed

theorem operand_selection_witness:
  "Suc 0 < length (fst (makeInsns 2)) \<and>
   bv_sem env3 (select_in1 (fst (makeInsns 2) ! Suc 0)
                  (take (Suc (Suc 0)) (eval_regs (BvVal 12) (fst (makeInsns 2)))) (Suc 0)) =
     bv_sem env3 (eval_regs (BvVal 12) (fst (makeInsns 2)) ! Suc 0) \<and>
   bv_sem env3 (select_in2 (fst (makeInsns 2) ! Suc 0)
                  (take (Suc (Suc 0)) (eval_regs (BvVal 12) (fst (makeInsns 2)))) (Suc 0)) =
     bv_sem env3 (eval_regs (BvVal 12) (fst (makeInsns 2)) ! 0)"
proof -
  have h: "Suc 0 < length (fst (makeInsns 2))"
    by (simp add: makeInsns_map)
  have s: "fst (makeInsns 2) ! Suc 0 = mkSymbolicInsn ''op1''"
    by (simp add: makeInsns_map to_string_def decimal.simps)
  have v: "int_sem env3 (sym_r1 (mkSymbolicInsn ''op1'')) = 1"
    "int_sem env3 (sym_r2 (mkSymbolicInsn ''op1'')) = 0"
    by (simp_all add: mkSymbolicInsn_def env3_def complete_def model3_def)
  show ?thesis
    using operand_selection [OF h, of "BvVal 12" env3] h
    unfolding s v by simp
qed

text \<open>
  C5. Opcode dispatch in the symbolic evaluator: the result of slot \<open>i\<close> on the operands
  \<open>in1\<close> and \<open>in2\<close> is \<open>in1 AND in2\<close> if the opcode is \<open>AND\<close>, 1 or 0 according to
  \<open>in1 = in2\<close> if it is \<open>CMPEQ\<close>, and \<open>in1 - in2\<close> modulo \<open>2^32\<close> for every other integer.
\<close>

theorem opcode_dispatch:
  "i < length insns \<Longrightarrow>
   bv_sem \<rho> (eval_regs x insns ! Suc i) =
     (let in1 = bv_sem \<rho> (select_in1 (insns ! i) (take (Suc i) (eval_regs x insns)) i);
          in2 = bv_sem \<rho> (select_in2 (insns ! i) (take (Suc i) (eval_regs x insns)) i);
          opc = int_sem \<rho> (sym_opcode (insns ! i))
      in if opc = AND_op then in1 AND in2
         else if opc = CMPEQ then (if in1 = in2 then 1 else 0)
         else in1 - in2)"
proof -
  assume i: "i < length insns"
  show ?thesis
    unfolding eval_regs_slot [OF i] insn_result_sem Let_def
    by (simp add: AND_op_def CMPEQ_def)
qed

theorem opcode_dispatch_witness:
  "(0::nat) < length (fst (makeInsns 1)) \<and>
   bv_sem env3 (eval_regs (BvVal 12) (fst (makeInsns 1)) ! Suc 0) = 11"
proof -
  have h: "(0::nat) < length (fst (makeInsns 1))"
    by (simp add: makeInsns_map)
  have s: "fst (makeInsns 1) ! 0 = mkSymbolicInsn ''op0''"
    by (simp add: makeInsns_map to_string_def decimal.simps)
  have v: "int_sem env3 (sym_opcode (mkSymbolicInsn ''op0'')) = 0"
    "int_sem env3 (sym_r1 (mkSymbolicInsn ''op0'')) = 0"
    "int_sem env3 (sym_r2 (mkSymbolicInsn ''op0'')) = - 1"
    "bv_sem env3 (sym_imm (mkSymbolicInsn ''op0'')) = 1"
    by (simp_all add: mkSymbolicInsn_def env3_def complete_def model3_def)
  have r0: "take (Suc 0) (eval_regs (BvVal 12) (fst (makeInsns 1))) ! 0 = BvVal 12"
    using take_eval_fold [of 0 "length (fst (makeInsns 1))" "fst (makeInsns 1)" "BvVal 12"]
    by (simp add: eval_regs_def)
  show ?thesis
    using opcode_dispatch [OF h, of env3 "BvVal 12"] h
    by (simp add: s v r0 select_in1_sem select_in2_sem AND_op_def CMPEQ_def)
qed

section \<open>Agreement of evaluator and decoder\<close>


lemma makeInsns_slots:
  "s \<in> set (fst (makeInsns numInsns)) \<Longrightarrow> \<exists>p. s = mkSymbolicInsn p"
  by (auto simp: makeInsns_map)






section \<open>Totality and well-formedness of decoding\<close>






lemma decodeInsn_wf:
  "opcode (decodeInsn m i s) \<in> {SUB, AND_op, CMPEQ}"
  "0 \<le> i \<Longrightarrow> 0 \<le> r1 (decodeInsn m i s) \<and> r1 (decodeInsn m i s) \<le> i"
  "0 \<le> i \<Longrightarrow> (isImm (decodeInsn m i s) \<and> r2 (decodeInsn m i s) = 0) \<or>
   (\<not> isImm (decodeInsn m i s) \<and> 0 \<le> r2 (decodeInsn m i s) \<and>
    r2 (decodeInsn m i s) \<le> i \<and> imm (decodeInsn m i s) = 0)"
proof -
  show "opcode (decodeInsn m i s) \<in> {SUB, AND_op, CMPEQ}"
    unfolding decodeInsn_opcode by (auto simp: SUB_def AND_op_def CMPEQ_def LAST_def)
  show "0 \<le> i \<Longrightarrow> 0 \<le> r1 (decodeInsn m i s) \<and> r1 (decodeInsn m i s) \<le> i"
    unfolding decodeInsn_r1 by auto
  show "0 \<le> i \<Longrightarrow> (isImm (decodeInsn m i s) \<and> r2 (decodeInsn m i s) = 0) \<or>
   (\<not> isImm (decodeInsn m i s) \<and> 0 \<le> r2 (decodeInsn m i s) \<and>
    r2 (decodeInsn m i s) \<le> i \<and> imm (decodeInsn m i s) = 0)"
    unfolding decodeInsn_r2 decodeInsn_imm decodeInsn_isImm by auto
qed

lemma toString_ok:
  "opcode I \<in> {SUB, AND_op, CMPEQ} \<Longrightarrow> \<exists>l. toString I dest = Inr l"
  by (auto simp: toString_def mnemonic_def)

lemma print_program_ok:
  "\<forall>I \<in> set P. opcode I \<in> {SUB, AND_op, CMPEQ} \<Longrightarrow> \<exists>ls. print_program P dest = Inr ls"
proof (induction P arbitrary: dest)
  case Nil
  show ?case by simp
next
  case (Cons I P)
  from Cons.prems obtain l where l: "toString I dest = Inr l"
    using toString_ok [of I dest] by auto
  from Cons obtain ls where "print_program P (dest + 1) = Inr ls" by fastforce
  with l show ?case by simp
qed

lemma print_decodeProgram:
  "\<exists>ls. print_program (decodeProgram insns m) dest = Inr ls"
  by (rule print_program_ok) (use decodeInsn_wf(1) in \<open>auto simp: decodeProgram_def\<close>)

text \<open>
  C10. Well-formedness of decoded programs: a program returned by \<^verbatim>\<open>reconstructProgram\<close>
  has one instruction per slot, and its instruction \<open>i\<close> has an opcode among \<open>SUB\<close>, \<open>AND\<close>,
  \<open>CMPEQ\<close>, has \<open>0 \<le> r1 \<le> i\<close>, and either uses the immediate with \<open>r2 = 0\<close> or has
  \<open>0 \<le> r2 \<le> i\<close> and \<open>imm = 0\<close>; so \<^verbatim>\<open>toString\<close> never reaches \<^verbatim>\<open>abort()\<close> on it.
\<close>

theorem decoded_program_well_formed:
  "reconstructProgram insns m = Inr program \<Longrightarrow>
   length program = length insns \<and>
   (\<forall>i < length insns.
      opcode (program ! i) \<in> {SUB, AND_op, CMPEQ} \<and>
      0 \<le> r1 (program ! i) \<and>
      r1 (program ! i) \<le> int i \<and>
      ((isImm (program ! i) \<and> r2 (program ! i) = 0) \<or>
       (\<not> isImm (program ! i) \<and>
        0 \<le> r2 (program ! i) \<and>
        r2 (program ! i) \<le> int i \<and>
        imm (program ! i) = 0)) \<and>
      (\<forall>dest. toString (program ! i) dest \<noteq> Inl SIGABRT)) \<and>
   print_program program 1 \<noteq> Inl SIGABRT"
proof -
  assume "reconstructProgram insns m = Inr program"
  then have p: "program = decodeProgram insns m" by (simp add: reconstructProgram_Inr)
  have "toString (decodeInsn m (int i) s) dest \<noteq> Inl SIGABRT" for i s dest
    using toString_ok [OF decodeInsn_wf(1), of m "int i" s dest] by auto
  moreover have "print_program (decodeProgram insns m) 1 \<noteq> Inl SIGABRT"
    using print_decodeProgram [of insns m 1] by auto
  moreover have "0 \<le> int i" for i by simp
  ultimately show ?thesis
    unfolding p using decodeInsn_wf by (simp add: decodeProgram_def)
qed

lemma program3:
  "reconstructProgram (fst (makeInsns 3)) model3 =
     Inr [\<lparr> opcode = SUB, r1 = 0, r2 = 0, isImm = True, imm = 1 \<rparr>,
          \<lparr> opcode = AND_op, r1 = 1, r2 = 0, isImm = False, imm = 0 \<rparr>,
          \<lparr> opcode = CMPEQ, r1 = 2, r2 = 0, isImm = True, imm = 0 \<rparr>]"
  by code_simp

lemma print_program3:
  "print_program
     [\<lparr> opcode = SUB, r1 = 0, r2 = 0, isImm = True, imm = 1 \<rparr>,
      \<lparr> opcode = AND_op, r1 = 1, r2 = 0, isImm = False, imm = 0 \<rparr>,
      \<lparr> opcode = CMPEQ, r1 = 2, r2 = 0, isImm = True, imm = 0 \<rparr>] 1 =
     Inr [''sub r0, 0x1, r1'', ''and r1, r0, r2'', ''cmpeq r2, 0x0, r3'']"
  by code_simp

theorem decoded_program_well_formed_witness:
  "reconstructProgram (fst (makeInsns 3)) model3 =
     Inr [\<lparr> opcode = SUB, r1 = 0, r2 = 0, isImm = True, imm = 1 \<rparr>,
          \<lparr> opcode = AND_op, r1 = 1, r2 = 0, isImm = False, imm = 0 \<rparr>,
          \<lparr> opcode = CMPEQ, r1 = 2, r2 = 0, isImm = True, imm = 0 \<rparr>] \<and>
   (2::nat) < length (fst (makeInsns 3)) \<and>
   toString \<lparr> opcode = CMPEQ, r1 = 2, r2 = 0, isImm = True, imm = 0 \<rparr> 3 \<noteq> Inl SIGABRT \<and>
   print_program
     [\<lparr> opcode = SUB, r1 = 0, r2 = 0, isImm = True, imm = 1 \<rparr>,
      \<lparr> opcode = AND_op, r1 = 1, r2 = 0, isImm = False, imm = 0 \<rparr>,
      \<lparr> opcode = CMPEQ, r1 = 2, r2 = 0, isImm = True, imm = 0 \<rparr>] 1 =
     Inr [''sub r0, 0x1, r1'', ''and r1, r0, r2'', ''cmpeq r2, 0x0, r3'']"
proof -
  have h: "(2::nat) < length (fst (makeInsns 3))"
    by (simp add: makeInsns_map)
  from decoded_program_well_formed [OF program3] h
  have "toString ([\<lparr> opcode = SUB, r1 = 0, r2 = 0, isImm = True, imm = 1 \<rparr>,
      \<lparr> opcode = AND_op, r1 = 1, r2 = 0, isImm = False, imm = 0 \<rparr>,
      \<lparr> opcode = CMPEQ, r1 = 2, r2 = 0, isImm = True, imm = 0 \<rparr>] ! 2) 3 \<noteq> Inl SIGABRT"
    by blast
  then have "toString \<lparr> opcode = CMPEQ, r1 = 2, r2 = 0, isImm = True, imm = 0 \<rparr> 3 \<noteq> Inl SIGABRT"
    by simp
  with program3 h print_program3 show ?thesis by (intro conjI)
qed

section \<open>The target specification is the power-of-two test\<close>

lemma ucast_two_power: "(ucast (2 ^ n :: 64 word) :: 32 word) = 2 ^ n"
  by (rule bit_word_eqI) (auto simp: bit_simps)

lemma isPow_fold:
  "snd (fold (\<lambda>i (r, p). (BOr r (BvEq x (bvConst p)), push_bit 1 p))
             [0..<n] (BvEq x (BvVal 0), 1 :: uint64)) = 2 ^ n \<and>
   (b_sem \<rho> (fst (fold (\<lambda>i (r, p). (BOr r (BvEq x (bvConst p)), push_bit 1 p))
                       [0..<n] (BvEq x (BvVal 0), 1 :: uint64))) \<longleftrightarrow>
      bv_sem \<rho> x = 0 \<or> (\<exists>i<n. bv_sem \<rho> x = 2 ^ i))"
proof (induction n)
  case 0
  show ?case by simp
next
  case (Suc n)
  define st where "st = fold (\<lambda>i (r, p). (BOr r (BvEq x (bvConst p)), push_bit 1 p))
             [0..<n] (BvEq x (BvVal 0), 1 :: uint64)"
  have step: "fold (\<lambda>i (r, p). (BOr r (BvEq x (bvConst p)), push_bit 1 p))
             [0..<Suc n] (BvEq x (BvVal 0), 1 :: uint64) =
        (BOr (fst st) (BvEq x (bvConst (snd st))), push_bit 1 (snd st))"
    by (simp add: st_def case_prod_beta)
  from Suc have p: "snd st = 2 ^ n"
    and r: "b_sem \<rho> (fst st) \<longleftrightarrow> bv_sem \<rho> x = 0 \<or> (\<exists>i<n. bv_sem \<rho> x = 2 ^ i)"
    by (simp_all add: st_def)
  have "push_bit 1 (snd st) = 2 ^ Suc n"
    by (simp add: p push_bit_eq_mult)
  moreover have "b_sem \<rho> (BOr (fst st) (BvEq x (bvConst (snd st)))) \<longleftrightarrow>
      bv_sem \<rho> x = 0 \<or> (\<exists>i<Suc n. bv_sem \<rho> x = 2 ^ i)"
    unfolding b_sem.simps r p bvConst_def bv_sem.simps ucast_two_power less_Suc_eq by blast
  ultimately show ?case
    unfolding step by simp
qed

lemma isPowerOfTwoOrZero_sem:
  "bv_sem \<rho> (isPowerOfTwoOrZero x) =
     (if bv_sem \<rho> x = 0 \<or> (\<exists>i<32. bv_sem \<rho> x = 2 ^ i) then 1 else 0)"
proof -
  have "b_sem \<rho> (fst (fold (\<lambda>i (r, p). (BOr r (BvEq x (bvConst p)), push_bit 1 p))
                       [0..<REGISTER_WIDTH] (BvEq x (BvVal 0), 1 :: uint64))) \<longleftrightarrow>
      bv_sem \<rho> x = 0 \<or> (\<exists>i<32. bv_sem \<rho> x = 2 ^ i)"
    unfolding REGISTER_WIDTH_def using isPow_fold [of x 32 \<rho>] by blast
  then show ?thesis
    unfolding isPowerOfTwoOrZero_def boolToBv_def bvConst_def
    by (simp only: bv_sem.simps) simp
qed

lemma bit32_bound: "bit x i \<Longrightarrow> i < 32" for x :: bv32
  using bit_imp_le_length [of x i] by simp

lemma bit_two_power_32: "bit (2 ^ k :: bv32) n \<longleftrightarrow> n = k \<and> k < 32"
  by (auto simp add: bit_exp_iff possible_bit_word)

lemma popcount_card: "popcount x = card {i. bit x i}"
proof -
  have "i < length [0..<32] \<and> bit x ([0..<32] ! i) \<longleftrightarrow> bit x i" for i
  proof (cases "i < 32")
    case True
    then show ?thesis by simp
  next
    case False
    with bit32_bound [of x i] have "\<not> bit x i" by blast
    with False show ?thesis by simp
  qed
  then have "{i. i < length [0..<32] \<and> bit x ([0..<32] ! i)} = {i. bit x i}"
    by (rule Collect_cong)
  then show ?thesis
    by (simp only: popcount_def length_filter_conv_card)
qed

lemma popcount_le_1:
  "popcount x \<le> 1 \<longleftrightarrow> x = 0 \<or> (\<exists>i<32. x = 2 ^ i)"
proof
  assume le: "popcount x \<le> 1"
  have "{i. bit x i} \<subseteq> {..<32}" using bit32_bound [of x] by blast
  then have fin: "finite {i. bit x i}" by (rule finite_subset) simp
  show "x = 0 \<or> (\<exists>i<32. x = 2 ^ i)"
  proof (cases "x = 0")
    case True then show ?thesis by simp
  next
    case False
    then obtain k where k: "bit x k" by (auto simp: bit_eq_iff)
    then have k32: "k < 32" by (rule bit32_bound)
    from le have "card {i. bit x i} \<le> Suc 0" by (simp add: popcount_card)
    with fin have "\<forall>a \<in> {i. bit x i}. \<forall>b \<in> {i. bit x i}. a = b"
      by (simp only: card_le_Suc0_iff_eq)
    with k have only: "bit x j \<Longrightarrow> j = k" for j by blast
    have "bit x n \<longleftrightarrow> bit (2 ^ k :: bv32) n" for n
      unfolding bit_two_power_32 using k k32 only by blast
    then have "x = 2 ^ k" by (auto simp only: bit_eq_iff)
    with k32 show ?thesis by blast
  qed
next
  assume "x = 0 \<or> (\<exists>i<32. x = 2 ^ i)"
  then show "popcount x \<le> 1"
  proof
    assume "x = 0" then show ?thesis by (simp add: popcount_card)
  next
    assume "\<exists>i<32. x = 2 ^ i"
    then obtain i where i: "i < 32" "x = 2 ^ i" by blast
    then have "{j. bit x j} = {i}"
      unfolding i(2) bit_two_power_32 by blast
    then show ?thesis by (simp add: popcount_card)
  qed
qed

text \<open>
  C3. For every 32-bit \<open>x\<close>, \<^verbatim>\<open>isPowerOfTwoOrZero\<close> yields 1 if \<open>x = 0\<close> or \<open>x = 2^i\<close> for
  some \<open>i\<close> in \<open>[0..31]\<close>, and 0 otherwise; the condition is the same as
  \<open>popcount x \<le> 1\<close>.
\<close>

theorem isPowerOfTwoOrZero_correct:
  "bv_sem \<rho> (isPowerOfTwoOrZero x) =
     (if bv_sem \<rho> x = 0 \<or> (\<exists>i<32. bv_sem \<rho> x = 2 ^ i) then 1 else 0) \<and>
   bv_sem \<rho> (isPowerOfTwoOrZero x) = (if popcount (bv_sem \<rho> x) \<le> 1 then 1 else 0)"
  unfolding isPowerOfTwoOrZero_sem popcount_le_1 by (rule conjI) (rule refl)+

section \<open>The builder\<close>

lemma digit_inj:
  "a < 10 \<Longrightarrow> b < 10 \<Longrightarrow> ''0123456789'' ! a = ''0123456789'' ! b \<Longrightarrow> a = b"
proof -
  have d: "distinct ''0123456789''" by simp
  assume "a < 10" "b < 10" "''0123456789'' ! a = ''0123456789'' ! b"
  then show "a = b" using d by (simp add: nth_eq_iff_index_eq)
qed

lemma digit_not_underscore:
  "a < 10 \<Longrightarrow> ''0123456789'' ! a \<noteq> CHR ''_''"
proof -
  assume "a < 10"
  then have "''0123456789'' ! a \<in> set ''0123456789''" by (intro nth_mem) simp
  then show ?thesis by auto
qed

lemma decimal_snoc:
  "decimal n = (if n < 10 then [] else decimal (n div 10)) @ [''0123456789'' ! (n mod 10)]"
  by (subst decimal.simps) simp

lemma decimal_no_underscore: "CHR ''_'' \<notin> set (decimal n)"
proof (induction n rule: less_induct)
  case (less n)
  have m: "n mod 10 < 10" by simp
  show ?case
  proof (cases "n < 10")
    case True
    then show ?thesis using digit_not_underscore [OF m] by (subst decimal_snoc) auto
  next
    case False
    then have "n div 10 < n" by simp
    from less [OF this] digit_not_underscore [OF m] False
    show ?thesis by (subst decimal_snoc) auto
  qed
qed

lemma decimal_inj: "decimal m = decimal n \<Longrightarrow> m = n"
proof (induction m arbitrary: n rule: less_induct)
  case (less m)
  have ne: "decimal k \<noteq> []" for k by (subst decimal_snoc) simp
  from less.prems
  have eq: "(if m < 10 then [] else decimal (m div 10)) @ [''0123456789'' ! (m mod 10)] =
      (if n < 10 then [] else decimal (n div 10)) @ [''0123456789'' ! (n mod 10)]"
    using decimal_snoc [of m] decimal_snoc [of n] by simp
  then have lastd: "''0123456789'' ! (m mod 10) = ''0123456789'' ! (n mod 10)"
    and front: "(if m < 10 then [] else decimal (m div 10)) =
      (if n < 10 then [] else decimal (n div 10))"
    by simp_all
  from lastd have md: "m mod 10 = n mod 10" by (intro digit_inj) simp_all
  show ?case
  proof (cases "m < 10")
    case True
    with front ne [of "n div 10"] have "n < 10" by (auto split: if_splits)
    with True md show ?thesis by simp
  next
    case False
    with front ne [of "m div 10"] have n: "\<not> n < 10" by (auto split: if_splits)
    with False front have "decimal (m div 10) = decimal (n div 10)" by simp
    moreover from False have "m div 10 < m" by simp
    ultimately have "m div 10 = n div 10" by (rule less.IH [rotated])
    with md show ?thesis by (metis div_mult_mod_eq)
  qed
qed

lemma split_at_marker:
  "c \<notin> set xs \<Longrightarrow> c \<notin> set ys \<Longrightarrow> xs @ c # r = ys @ c # r' \<Longrightarrow> xs = ys \<and> r = r'"
proof (induction xs arbitrary: ys)
  case Nil
  then show ?case by (cases ys) auto
next
  case (Cons x xs)
  then show ?case by (cases ys) auto
qed

lemma slot_name_inj:
  "slot_name i a = slot_name j b \<longleftrightarrow> i = j \<and> a = b"
proof
  assume "slot_name i a = slot_name j b"
  then have "decimal i @ CHR ''_'' # a = decimal j @ CHR ''_'' # b"
    by (simp add: slot_name_def to_string_def)
  then have "decimal i = decimal j \<and> a = b"
    by (rule split_at_marker [OF decimal_no_underscore decimal_no_underscore])
  then show "i = j \<and> a = b" using decimal_inj by blast
qed simp

lemma slot_consts_names:
  "slot_consts (mkSymbolicInsn (''op'' @ to_string (int i))) =
     [slot_name i ''op'', slot_name i ''r1'', slot_name i ''r2'', slot_name i ''imm'']"
  by (simp add: slot_consts_def mkSymbolicInsn_def slot_name_def)

lemma distinct_slot_names:
  "distinct (concat (map (\<lambda>i. [slot_name i ''op'', slot_name i ''r1'', slot_name i ''r2'',
                                 slot_name i ''imm'']) [0..<n]))"
proof (induction n)
  case 0
  show ?case by simp
next
  case (Suc n)
  have "i < n \<Longrightarrow> slot_name i a \<noteq> slot_name n b" for i a b
    by (simp add: slot_name_inj)
  with Suc show ?case
    by (simp add: slot_name_inj)
qed

lemma makeInsns_consts:
  "map slot_consts (fst (makeInsns numInsns)) =
     map (\<lambda>i. [slot_name i ''op'', slot_name i ''r1'', slot_name i ''r2'', slot_name i ''imm''])
         [0..<nat numInsns]"
  unfolding makeInsns_map fst_conv map_map comp_def slot_consts_names ..

lemma makeInsns_distinct:
  "distinct (concat (map slot_consts (fst (makeInsns numInsns))))"
  unfolding makeInsns_consts by (rule distinct_slot_names)

text \<open>
  C6 (as the code has it). For every \<open>N\<close>, \<^verbatim>\<open>makeInsns(N)\<close> returns \<open>N\<close> slots (none if
  \<open>N\<close> is negative) of four constants each, all names distinct, and exactly one
  constraint per slot, on the immediate alone: the unsigned comparison \<open>imm_i < 0xff\<close>.
  Nothing constrains \<open>op_i\<close>, \<open>r1_i\<close> or \<open>r2_i\<close>.
\<close>

theorem makeInsns_slots_and_constraints:
  "length (fst (makeInsns numInsns)) = nat numInsns \<and>
   (0 \<le> numInsns \<longrightarrow> int (length (fst (makeInsns numInsns))) = numInsns) \<and>
   (\<forall>s \<in> set (fst (makeInsns numInsns)). length (slot_consts s) = 4) \<and>
   distinct (concat (map slot_consts (fst (makeInsns numInsns)))) \<and>
   snd (makeInsns numInsns) =
     map (\<lambda>s. BvUlt (sym_imm s) (BvVal 0xff)) (fst (makeInsns numInsns)) \<and>
   (\<forall>i < nat numInsns. \<forall>\<rho>.
      b_sem \<rho> (snd (makeInsns numInsns) ! i) \<longleftrightarrow>
        bv_sem \<rho> (sym_imm (fst (makeInsns numInsns) ! i)) < 0xff)"
proof -
  have len: "length (fst (makeInsns numInsns)) = nat numInsns"
    by (simp add: makeInsns_map)
  then have len': "0 \<le> numInsns \<longrightarrow> int (length (fst (makeInsns numInsns))) = numInsns"
    by simp
  have cs: "snd (makeInsns numInsns) =
     map (\<lambda>s. BvUlt (sym_imm s) (BvVal 0xff)) (fst (makeInsns numInsns))"
    by (simp add: makeInsns_map mkSymbolicInsn_def comp_def)
  have four: "\<forall>s \<in> set (fst (makeInsns numInsns)). length (slot_consts s) = 4"
    using arg_cong [OF makeInsns_consts [of numInsns], of "list_all (\<lambda>l. length l = 4)"]
    by (simp add: list_all_iff)
  have sem: "\<forall>i < nat numInsns. \<forall>\<rho>.
      b_sem \<rho> (snd (makeInsns numInsns) ! i) \<longleftrightarrow>
        bv_sem \<rho> (sym_imm (fst (makeInsns numInsns) ! i)) < 0xff"
    unfolding cs using len by simp
  from len len' four makeInsns_distinct [of numInsns] cs sem
  show ?thesis by (intro conjI)
qed

text \<open>
  The bound of the constraint is \<open>0xff\<close>, not \<open>0x100\<close>: the immediate \<open>0xff\<close> is below
  \<open>0x100\<close> and violates the constraint of its slot.
\<close>

theorem makeInsns_bound_counterexample:
  "snd (makeInsns 1) = [BvUlt (BvConst ''op0_imm'') (BvVal 0xff)] \<and>
   bv_of env_ff ''op0_imm'' < 0x100 \<and>
   \<not> b_sem env_ff (hd (snd (makeInsns 1)))"
  by (simp add: makeInsns_map to_string_def decimal.simps env_ff_def)

theorem makeInsns_slots_and_constraints_witness:
  "(0::int) \<le> 2 \<and> int (length (fst (makeInsns 2))) = 2 \<and>
   mkSymbolicInsn ''op1'' \<in> set (fst (makeInsns 2)) \<and>
   length (slot_consts (mkSymbolicInsn ''op1'')) = 4 \<and>
   distinct (concat (map slot_consts (fst (makeInsns 2)))) \<and>
   Suc 0 < nat 2 \<and>
   (b_sem env_ff (snd (makeInsns 2) ! Suc 0) \<longleftrightarrow>
      bv_sem env_ff (sym_imm (fst (makeInsns 2) ! Suc 0)) < 0xff)"
proof -
  have h1: "(0::int) \<le> 2" by simp
  have h2: "mkSymbolicInsn ''op1'' \<in> set (fst (makeInsns 2))" by code_simp
  have h3: "Suc 0 < nat 2" by simp
  from makeInsns_slots_and_constraints [of 2] h1 h2 h3 show ?thesis by blast
qed

section \<open>The synthesis loop\<close>

lemma model_eval_int_sem: "int_sem \<rho> (model_eval_int m e) = int_sem (complete m \<rho>) e"
  by (cases e) (simp_all add: complete_def split: option.split)

lemma model_eval_sem:
  "bv_sem \<rho> (model_eval m e) = bv_sem (complete m \<rho>) e"
  "b_sem \<rho> (model_eval_bool m c) = b_sem (complete m \<rho>) c"
proof (induction e and c)
  case (BvConst n)
  show ?case by (simp add: complete_def split: option.split)
qed (simp_all add: model_eval_int_sem)

lemma target_sem: "bv_sem \<rho> (targetProgram e) = spec (bv_sem \<rho> e)"
  by (simp add: spec_def targetProgram_def isPowerOfTwoOrZero_sem)

lemma spec_eq: "spec v = (if v = 0 \<or> (\<exists>i<32. v = 2 ^ i) then 1 else 0)"
  by (simp add: spec_def targetProgram_def isPowerOfTwoOrZero_sem)





lemma iteration_Printed:
  assumes "iteration check numInsns testCases = Done (Printed program ls)"
  obtains m where
    "check (synthesis_query numInsns testCases) = sat m"
    "reconstructProgram (fst (makeInsns numInsns)) m = Inr program"
    "print_program program 1 = Inr ls"
    "check (verification_query numInsns m) = unsat"
  using assms
  by (auto simp: iteration_def x_var_def
      split: check_result.splits sum.splits bvexpr.splits option.splits)

lemma nat_pow2_and:
  "0 < n \<Longrightarrow> ((n - 1) AND n = 0) = (\<exists>i. n = 2 ^ i)" for n :: nat
proof (induction n rule: less_induct)
  case (less n)
  show ?case
  proof (cases "even n")
    case True
    with less.prems obtain m where m: "n = 2 * m" "0 < m" by (auto elim: evenE)
    then have "m < n" by simp
    from less.IH [OF this m(2)] have IH: "((m - 1) AND m = 0) = (\<exists>i. m = 2 ^ i)" .
    have "(n - 1) div 2 = m - 1" using m by auto
    moreover have "odd (n - 1)" using m by auto
    ultimately have "(n - 1) AND n = 2 * ((m - 1) AND m)"
      using m by (subst and_rec) simp
    then have "((n - 1) AND n = 0) = (\<exists>i. m = 2 ^ i)" using IH by simp
    also have "\<dots> = (\<exists>i. n = 2 ^ i)"
    proof
      assume "\<exists>i. m = 2 ^ i"
      then obtain i where "m = 2 ^ i" ..
      then have "n = 2 ^ Suc i" using m by simp
      then show "\<exists>i. n = 2 ^ i" ..
    next
      assume "\<exists>i. n = 2 ^ i"
      then obtain i where i: "n = 2 ^ i" ..
      with True have "i \<noteq> 0" by (cases i) auto
      then obtain j where "i = Suc j" by (cases i) auto
      with i m have "m = 2 ^ j" by simp
      then show "\<exists>i. m = 2 ^ i" ..
    qed
    finally show ?thesis .
  next
    case False
    then obtain m where m: "n = 2 * m + 1" by (auto elim: oddE)
    have "(n - 1) AND n = 2 * (m AND m)"
      using m by (subst and_rec) simp
    then have a: "((n - 1) AND n = 0) = (m = 0)" by simp
    have "(\<exists>i. n = 2 ^ i) = (m = 0)"
    proof
      assume "\<exists>i. n = 2 ^ i"
      then obtain i where i: "n = 2 ^ i" ..
      with False have "i = 0" by (cases i) auto
      with i m show "m = 0" by simp
    next
      assume "m = 0"
      with m have "n = 2 ^ 0" by simp
      then show "\<exists>i. n = 2 ^ i" ..
    qed
    with a show ?thesis by simp
  qed
qed

lemma len32: "LENGTH(32) = 32"
  by simp

lemma word_pow2_and:
  "((x - 1) AND x = 0) = (x = 0 \<or> (\<exists>i<32. x = 2 ^ i))" for x :: "32 word"
proof (cases "x = 0")
  case True
  then show ?thesis by simp
next
  case False
  then have pos: "0 < unat x" by (simp add: unat_gt_0)
  have "((x - 1) AND x = 0) = (unat ((x - 1) AND x) = 0)"
    by (simp add: unat_eq_0)
  also have "unat ((x - 1) AND x) = (unat x - 1) AND unat x"
    using False by (simp add: unsigned_and_eq unat_minus_one)
  also have "((unat x - 1) AND unat x = 0) = (\<exists>i. unat x = 2 ^ i)"
    by (rule nat_pow2_and [OF pos])
  also have "\<dots> = (\<exists>i<32. x = 2 ^ i)"
  proof
    assume "\<exists>i. unat x = 2 ^ i"
    then obtain i where i: "unat x = 2 ^ i" ..
    have "unat x < 2 ^ LENGTH(32)" by (rule unsigned_less)
    then have "(2::nat) ^ i < 2 ^ LENGTH(32)" by (simp only: i)
    then have "i < LENGTH(32)" by (rule power_less_imp_less_exp [rotated]) simp
    then have i32: "i < 32" by simp
    have "x = of_nat (unat x)" by simp
    with i have "x = of_nat (2 ^ i)" by simp
    then have "x = 2 ^ i" by simp
    with i32 show "\<exists>i<32. x = 2 ^ i" by blast
  next
    assume "\<exists>i<32. x = 2 ^ i"
    then obtain i where i: "i < 32" "x = 2 ^ i" by blast
    then have "(2::nat) ^ i < 2 ^ LENGTH(32)" by (simp only: len32 power_strict_increasing_iff)
    moreover have "x = word_of_nat (2 ^ i)" using i by simp
    ultimately have "unat x = 2 ^ i" by (simp only: unat_of_nat mod_less)
    then show "\<exists>i. unat x = 2 ^ i" ..
  qed
  finally show ?thesis using False by simp
qed

lemma spec_bit_trick: "spec v = (if (v - 1) AND v = 0 then 1 else 0)"
  unfolding spec_eq word_pow2_and ..

lemma imm_name_not_x: "p @ ''_imm'' \<noteq> ''x''"
  by (cases p) simp_all

lemma decoder_view_input:
  assumes "\<forall>n. int_of \<rho> n = 0" and "bv_of \<rho> (p @ ''_imm'') = 0"
  shows "decoder_view m (complete m \<rho>) (mkSymbolicInsn p)"
  using assms
  by (simp add: decoder_view_def mkSymbolicInsn_def complete_def
      read_int_def getUint64Default_def ucast_ucast_32_64 split: option.split)

lemma decoder_view_decided:
  assumes "model_decides m (mkSymbolicInsn p)"
  shows "decoder_view m (complete m \<rho>) (mkSymbolicInsn p)"
  using assms
  by (simp add: decoder_view_def model_decides_def mkSymbolicInsn_def complete_def
      is_numeral_int_def is_numeral_bv_def
      read_int_def getUint64Default_def ucast_ucast_32_64 split: option.splits)

lemma verification_unsat:
  assumes "unsat_correct check (verification_query numInsns m)"
    and "check (verification_query numInsns m) = unsat"
  shows "bv_sem (complete m \<rho>) (eval x_var (fst (makeInsns numInsns))) = spec (bv_of \<rho> ''x'')"
proof -
  from assms have "\<not> b_sem \<rho> (BvNeq (solutionProgram numInsns m) (targetProgram x_var))"
    by (simp add: unsat_correct_def verification_query_def)
  then show ?thesis
    by (simp add: solutionProgram_def model_eval_sem target_sem x_var_def)
qed

lemma unsat_model_leaves_x:
  assumes all: "\<And>\<rho>. bv_sem (complete m \<rho>) e = spec (bv_of \<rho> ''x'')"
  shows "m_bv m ''x'' = None"
proof (rule ccontr)
  assume "m_bv m ''x'' \<noteq> None"
  then obtain c where c: "m_bv m ''x'' = Some c" by auto
  have "complete m (input_env 0) = complete m (input_env 3)"
    using c by (auto simp: complete_def input_env_def fun_eq_iff split: option.split)
  with all [of "input_env 0"] all [of "input_env 3"]
  have "spec 0 = spec 3" by (simp add: input_env_def)
  then show False by (simp add: spec_bit_trick)
qed

lemma printed_program_correct:
  assumes it: "iteration check numInsns testCases = Done (Printed program ls)"
    and us: "\<forall>q. unsat_correct check q"
  shows "Evaluator_concrete v program = Some (spec v)" and "print_program program 1 = Inr ls"
proof -
  from it show "print_program program 1 = Inr ls" by (rule iteration_Printed)
  from it obtain m where m: "reconstructProgram (fst (makeInsns numInsns)) m = Inr program"
    "check (verification_query numInsns m) = unsat"
    by (rule iteration_Printed)
  from m(1) have prog: "program = decodeProgram (fst (makeInsns numInsns)) m"
    by (simp add: reconstructProgram_Inr)
  from us have "unsat_correct check (verification_query numInsns m)" by simp
  note sem = verification_unsat [OF this m(2)]
  from sem have fresh: "m_bv m ''x'' = None" by (rule unsat_model_leaves_x)
  define \<rho> where "\<rho> = complete m (input_env v)"
  have x: "bv_sem \<rho> x_var = v"
    by (simp add: \<rho>_def x_var_def complete_def fresh input_env_def)
  have "\<forall>s \<in> set (fst (makeInsns numInsns)). decoder_view m \<rho> s"
  proof
    fix s assume "s \<in> set (fst (makeInsns numInsns))"
    then obtain p where p: "s = mkSymbolicInsn p" using makeInsns_slots by blast
    show "decoder_view m \<rho> s"
      unfolding p \<rho>_def
      by (rule decoder_view_input) (simp_all add: input_env_def imm_name_not_x)
  qed
  from Evaluator_concrete_agrees [OF this, of x_var]
  have "Evaluator_concrete v program = Some (bv_sem \<rho> (eval x_var (fst (makeInsns numInsns))))"
    by (simp add: x prog)
  also have "bv_sem \<rho> (eval x_var (fst (makeInsns numInsns))) = spec v"
    unfolding \<rho>_def sem by (simp add: input_env_def)
  finally show "Evaluator_concrete v program = Some (spec v)" .
qed

text \<open>
  C1. Soundness of the synthesis loop: if a run of \<^verbatim>\<open>main\<close> ends by printing a program
  (the verification query came back unsat), and every unsat answer of the solver is
  right, then the printed lines are those of the program and the program, run with the
  concrete instruction semantics, equals the target on every 32-bit input.
\<close>

theorem cegis_soundness:
  assumes "main_loop check fuel numInsns testCases = Some (Printed program ls)"
    and "\<forall>q. unsat_correct check q"
  shows "exit_code (Printed program ls) = Some 0 \<and>
         print_program program 1 = Inr ls \<and>
         (\<forall>x. Evaluator_concrete x program = Some (spec x))"
  using assms(1)
proof (induction fuel arbitrary: numInsns testCases)
  case 0
  then show ?case by simp
next
  case (Suc fuel)
  show ?case
  proof (cases "iteration check numInsns testCases")
    case (Continue testCases')
    with Suc.prems have "main_loop check fuel numInsns testCases' = Some (Printed program ls)"
      by simp
    then show ?thesis by (rule Suc.IH)
  next
    case Break
    with Suc.prems have "main_loop check fuel (numInsns + 1) testCases = Some (Printed program ls)"
      by simp
    then show ?thesis by (rule Suc.IH)
  next
    case (Done res)
    with Suc.prems have "iteration check numInsns testCases = Done (Printed program ls)"
      by simp
    from printed_program_correct [OF this assms(2)] show ?thesis by simp
  qed
qed

lemma insns3: "fst (makeInsns 3) = map mkSymbolicInsn [''op0'', ''op1'', ''op2'']"
  by code_simp

lemma decodeProgram3:
  "decodeProgram (fst (makeInsns 3)) model3 =
     [\<lparr> opcode = SUB, r1 = 0, r2 = 0, isImm = True, imm = 1 \<rparr>,
      \<lparr> opcode = AND_op, r1 = 1, r2 = 0, isImm = False, imm = 0 \<rparr>,
      \<lparr> opcode = CMPEQ, r1 = 2, r2 = 0, isImm = True, imm = 0 \<rparr>]"
  using program3 by (simp add: reconstructProgram_Inr)

lemma run_program3:
  "Evaluator_concrete v
     [\<lparr> opcode = SUB, r1 = 0, r2 = 0, isImm = True, imm = 1 \<rparr>,
      \<lparr> opcode = AND_op, r1 = 1, r2 = 0, isImm = False, imm = 0 \<rparr>,
      \<lparr> opcode = CMPEQ, r1 = 2, r2 = 0, isImm = True, imm = 0 \<rparr>] =
     Some (if (v - 1) AND v = 0 then 1 else 0)"
  by (simp add: Evaluator_concrete_def eval_op_def SUB_def AND_op_def CMPEQ_def)

lemma model3_decides: "\<forall>s \<in> set (fst (makeInsns 3)). model_decides model3 s"
  unfolding insns3 by code_simp

lemma solution3_correct:
  "bv_sem \<rho> (solutionProgram 3 model3) = spec (bv_of \<rho> ''x'')"
proof -
  define \<rho>' where "\<rho>' = complete model3 \<rho>"
  have x: "bv_sem \<rho>' x_var = bv_of \<rho> ''x''"
    by (simp add: \<rho>'_def x_var_def complete_def model3_def)
  have "\<forall>s \<in> set (fst (makeInsns 3)). decoder_view model3 \<rho>' s"
  proof
    fix s assume s: "s \<in> set (fst (makeInsns 3))"
    then obtain p where p: "s = mkSymbolicInsn p" using makeInsns_slots by blast
    from s model3_decides have "model_decides model3 s" by blast
    then show "decoder_view model3 \<rho>' s"
      unfolding p \<rho>'_def by (rule decoder_view_decided)
  qed
  from Evaluator_concrete_agrees [OF this, of x_var]
  have "bv_sem \<rho>' (eval x_var (fst (makeInsns 3))) =
      (if (bv_of \<rho> ''x'' - 1) AND bv_of \<rho> ''x'' = 0 then 1 else 0)"
    unfolding x decodeProgram3 run_program3 by simp
  then show ?thesis
    by (simp add: solutionProgram_def model_eval_sem \<rho>'_def spec_bit_trick)
qed

lemma queries3_differ: "synthesis_query 3 [] \<noteq> verification_query 3 model3"
proof
  assume "synthesis_query 3 [] = verification_query 3 model3"
  then have "length (synthesis_query 3 []) = length (verification_query 3 model3)" by simp
  then show False
    by (simp add: synthesis_query_def makeInsns_map verification_query_def)
qed

theorem cegis_soundness_witness:
  "main_loop check3 (Suc 0) 3 [] =
     Some (Printed
             [\<lparr> opcode = SUB, r1 = 0, r2 = 0, isImm = True, imm = 1 \<rparr>,
      \<lparr> opcode = AND_op, r1 = 1, r2 = 0, isImm = False, imm = 0 \<rparr>,
      \<lparr> opcode = CMPEQ, r1 = 2, r2 = 0, isImm = True, imm = 0 \<rparr>]
             [''sub r0, 0x1, r1'', ''and r1, r0, r2'', ''cmpeq r2, 0x0, r3'']) \<and>
   (\<forall>q. unsat_correct check3 q) \<and>
   Evaluator_concrete 8
     [\<lparr> opcode = SUB, r1 = 0, r2 = 0, isImm = True, imm = 1 \<rparr>,
      \<lparr> opcode = AND_op, r1 = 1, r2 = 0, isImm = False, imm = 0 \<rparr>,
      \<lparr> opcode = CMPEQ, r1 = 2, r2 = 0, isImm = True, imm = 0 \<rparr>] = Some (spec 8) \<and>
   Evaluator_concrete 12
     [\<lparr> opcode = SUB, r1 = 0, r2 = 0, isImm = True, imm = 1 \<rparr>,
      \<lparr> opcode = AND_op, r1 = 1, r2 = 0, isImm = False, imm = 0 \<rparr>,
      \<lparr> opcode = CMPEQ, r1 = 2, r2 = 0, isImm = True, imm = 0 \<rparr>] = Some (spec 12) \<and>
   spec 8 = 1 \<and> spec 12 = 0"
proof -
  have run: "main_loop check3 (Suc 0) 3 [] =
     Some (Printed
             [\<lparr> opcode = SUB, r1 = 0, r2 = 0, isImm = True, imm = 1 \<rparr>,
      \<lparr> opcode = AND_op, r1 = 1, r2 = 0, isImm = False, imm = 0 \<rparr>,
      \<lparr> opcode = CMPEQ, r1 = 2, r2 = 0, isImm = True, imm = 0 \<rparr>]
             [''sub r0, 0x1, r1'', ''and r1, r0, r2'', ''cmpeq r2, 0x0, r3''])"
  proof -
    have syn: "check3 (synthesis_query 3 []) = sat model3" by (simp add: check3_def)
    have ver: "check3 (verification_query 3 model3) = unsat"
      using queries3_differ by (simp add: check3_def)
    have "iteration check3 3 [] =
     Done (Printed
             [\<lparr> opcode = SUB, r1 = 0, r2 = 0, isImm = True, imm = 1 \<rparr>,
      \<lparr> opcode = AND_op, r1 = 1, r2 = 0, isImm = False, imm = 0 \<rparr>,
      \<lparr> opcode = CMPEQ, r1 = 2, r2 = 0, isImm = True, imm = 0 \<rparr>]
             [''sub r0, 0x1, r1'', ''and r1, r0, r2'', ''cmpeq r2, 0x0, r3''])"
      by (simp add: iteration_def syn program3 print_program3 ver del: print_program.simps)
    then show ?thesis by simp
  qed
  have ok: "\<forall>q. unsat_correct check3 q"
  proof
    fix q
    show "unsat_correct check3 q"
      unfolding unsat_correct_def
    proof (intro impI allI)
      fix \<rho>
      assume "check3 q = unsat"
      then have "q = verification_query 3 model3"
        by (simp add: check3_def split: if_splits)
      then show "\<exists>a \<in> set q. \<not> b_sem \<rho> a"
        by (simp add: verification_query_def solution3_correct target_sem x_var_def)
    qed
  qed
  from cegis_soundness [OF run ok]
  have "Evaluator_concrete 8
     [\<lparr> opcode = SUB, r1 = 0, r2 = 0, isImm = True, imm = 1 \<rparr>,
      \<lparr> opcode = AND_op, r1 = 1, r2 = 0, isImm = False, imm = 0 \<rparr>,
      \<lparr> opcode = CMPEQ, r1 = 2, r2 = 0, isImm = True, imm = 0 \<rparr>] = Some (spec 8)"
    "Evaluator_concrete 12
     [\<lparr> opcode = SUB, r1 = 0, r2 = 0, isImm = True, imm = 1 \<rparr>,
      \<lparr> opcode = AND_op, r1 = 1, r2 = 0, isImm = False, imm = 0 \<rparr>,
      \<lparr> opcode = CMPEQ, r1 = 2, r2 = 0, isImm = True, imm = 0 \<rparr>] = Some (spec 12)"
    by blast+
  moreover have "spec 8 = 1" "spec 12 = 0" by (simp_all add: spec_bit_trick)
  ultimately show ?thesis using run ok by blast
qed

section \<open>An unknown answer\<close>

lemma iteration_unknown:
  assumes "check (synthesis_query numInsns testCases) = unknown \<or>
     (\<exists>m program. check (synthesis_query numInsns testCases) = sat m \<and>
          reconstructProgram (fst (makeInsns numInsns)) m = Inr program \<and>
          check (verification_query numInsns m) = unknown)"
  shows "\<exists>ls. iteration check numInsns testCases = Done (Caught ls unexpected_check_value) \<and>
          (check (synthesis_query numInsns testCases) = unknown \<longrightarrow> ls = []) \<and>
          (\<forall>m program. check (synthesis_query numInsns testCases) = sat m \<and>
             reconstructProgram (fst (makeInsns numInsns)) m = Inr program \<longrightarrow>
             print_program program 1 = Inr ls)"
  using assms
proof
  assume "check (synthesis_query numInsns testCases) = unknown"
  then show ?thesis by (simp add: iteration_def)
next
  assume "\<exists>m program. check (synthesis_query numInsns testCases) = sat m \<and>
          reconstructProgram (fst (makeInsns numInsns)) m = Inr program \<and>
          check (verification_query numInsns m) = unknown"
  then obtain m program where m: "check (synthesis_query numInsns testCases) = sat m"
    "reconstructProgram (fst (makeInsns numInsns)) m = Inr program"
    "check (verification_query numInsns m) = unknown" by blast
  from m(2) have "program = decodeProgram (fst (makeInsns numInsns)) m"
    by (simp add: reconstructProgram_Inr)
  then obtain ls where ls: "print_program program 1 = Inr ls"
    using print_decodeProgram by blast
  with m have "iteration check numInsns testCases = Done (Caught ls unexpected_check_value)"
    by (simp add: iteration_def)
  with m ls show ?thesis by simp
qed

text \<open>
  C9 (as the code has it). When a check answers neither sat nor unsat, whether on the
  synthesis query or on the verification query, the run ends in that iteration: the
  handler writes \<open>unexpected check value\<close> to standard error, nothing is written to
  standard output, and \<^verbatim>\<open>main\<close> returns 0. Standard error holds the candidate program
  of the iteration if the check was the verification check, and no candidate if it was
  the synthesis check. The answer is not taken for unsat and no further query is made.
\<close>

theorem unknown_check_ends_run:
  assumes "check (synthesis_query numInsns testCases) = unknown \<or>
     (\<exists>m program. check (synthesis_query numInsns testCases) = sat m \<and>
          reconstructProgram (fst (makeInsns numInsns)) m = Inr program \<and>
          check (verification_query numInsns m) = unknown)"
  shows "\<exists>ls. iteration check numInsns testCases = Done (Caught ls unexpected_check_value) \<and>
          main_loop check (Suc fuel) numInsns testCases =
            Some (Caught ls unexpected_check_value) \<and>
          exit_code (Caught ls unexpected_check_value) = Some 0 \<and>
          stdout (Caught ls unexpected_check_value) = [] \<and>
          stderr_message (Caught ls unexpected_check_value) = Some ''unexpected check value'' \<and>
          stderr_candidate (Caught ls unexpected_check_value) = ls \<and>
          (check (synthesis_query numInsns testCases) = unknown \<longrightarrow> ls = []) \<and>
          (\<forall>m program. check (synthesis_query numInsns testCases) = sat m \<and>
             reconstructProgram (fst (makeInsns numInsns)) m = Inr program \<longrightarrow>
             print_program program 1 = Inr ls)"
proof -
  from iteration_unknown [OF assms] obtain ls where
    ls: "iteration check numInsns testCases = Done (Caught ls unexpected_check_value)"
    "check (synthesis_query numInsns testCases) = unknown \<longrightarrow> ls = []"
    "\<forall>m program. check (synthesis_query numInsns testCases) = sat m \<and>
             reconstructProgram (fst (makeInsns numInsns)) m = Inr program \<longrightarrow>
             print_program program 1 = Inr ls"
    by blast
  from ls(1) have "main_loop check (Suc fuel) numInsns testCases =
            Some (Caught ls unexpected_check_value)" by simp
  with ls show ?thesis by (intro exI [of _ ls]) simp
qed

lemma queries1_differ: "verification_query 1 m \<noteq> synthesis_query 1 []"
  by (simp add: synthesis_query_def makeInsns_map verification_query_def)



lemma program1:
  "reconstructProgram (fst (makeInsns 1)) model1 =
     Inr [\<lparr> opcode = SUB, r1 = 0, r2 = 0, isImm = False, imm = 0 \<rparr>]"
  by code_simp

lemma print_program1:
  "print_program [\<lparr> opcode = SUB, r1 = 0, r2 = 0, isImm = False, imm = 0 \<rparr>] 1 =
     Inr [''sub r0, r0, r1'']"
  by code_simp

theorem unknown_check_ends_run_witness:
  "check1u (synthesis_query 1 []) = sat model1 \<and>
   reconstructProgram (fst (makeInsns 1)) model1 =
     Inr [\<lparr> opcode = SUB, r1 = 0, r2 = 0, isImm = False, imm = 0 \<rparr>] \<and>
   check1u (verification_query 1 model1) = unknown \<and>
   main_loop check1u (Suc 5) 1 [] =
     Some (Caught [''sub r0, r0, r1''] unexpected_check_value) \<and>
   exit_code (Caught [''sub r0, r0, r1''] unexpected_check_value) = Some 0 \<and>
   stdout (Caught [''sub r0, r0, r1''] unexpected_check_value) = []"
proof -
  have h: "check1u (synthesis_query 1 []) = sat model1"
    "check1u (verification_query 1 model1) = unknown"
    using queries1_differ [of model1] by (simp_all add: check1u_def)
  with program1 have "check1u (synthesis_query 1 []) = unknown \<or>
     (\<exists>m program. check1u (synthesis_query 1 []) = sat m \<and>
          reconstructProgram (fst (makeInsns 1)) m = Inr program \<and>
          check1u (verification_query 1 m) = unknown)" by blast
  from unknown_check_ends_run [OF this, of 5] obtain ls where
    ls: "main_loop check1u (Suc 5) 1 [] = Some (Caught ls unexpected_check_value)"
    "\<forall>m program. check1u (synthesis_query 1 []) = sat m \<and>
             reconstructProgram (fst (makeInsns 1)) m = Inr program \<longrightarrow>
             print_program program 1 = Inr ls"
    by blast
  from ls(2) h(1) program1 have "print_program
      [\<lparr> opcode = SUB, r1 = 0, r2 = 0, isImm = False, imm = 0 \<rparr>] 1 = Inr ls" by blast
  then have "ls = [''sub r0, r0, r1'']" unfolding print_program1 by simp
  with ls(1) h program1 show ?thesis by simp
qed

text \<open>
  The exit code after an unknown answer is 0, the code of a successful run, not 2.
\<close>

theorem unknown_exit_code_counterexample:
  "map_option exit_code (main always_unknown 1) = Some (Some 0) \<and>
   map_option exit_code (main always_unknown 1) \<noteq> Some (Some 2)"
  by (simp add: main_def iteration_def always_unknown_def)

section \<open>The test cases\<close>














end
